theory Spec2Isabelle
  imports Main
begin

section \<open>Documents: the values of Python's json module\<close>

text \<open>
  \<^verbatim>\<open>json.load\<close> yields \<^verbatim>\<open>None\<close>, booleans, numbers, strings, lists and
  dictionaries with string keys. A dictionary keeps its insertion order, so it is an
  association list; a loaded dictionary has pairwise distinct keys. Numbers are
  integers here: no function below computes with a number, they are only tested for
  truthiness and copied.
\<close>

datatype json =
    JNull
  | JBool bool
  | JInt int
  | JStr string
  | JArr "json list"
  | JObj "(string \<times> json) list"

datatype py_error = AttributeError | TypeError | KeyError | NonStringKey | NonAscii

type_synonym dict = "(string \<times> json) list"

text \<open>\<^verbatim>\<open>d[k] = v\<close>: an existing key keeps its position, a new key is appended.\<close>

fun dict_set :: "dict \<Rightarrow> string \<Rightarrow> json \<Rightarrow> dict" where
  "dict_set [] k v = [(k, v)]"
| "dict_set ((k', v') # kvs) k v =
     (if k' = k then (k, v) # kvs else (k', v') # dict_set kvs k v)"

text \<open>\<^verbatim>\<open>del d[k]\<close> for a key that is present.\<close>

definition dict_del :: "dict \<Rightarrow> string \<Rightarrow> dict" where
  "dict_del kvs k = filter (\<lambda>kv. fst kv \<noteq> k) kvs"

text \<open>Python's truth value of a document value (\<^verbatim>\<open>not x\<close> is its negation).\<close>

fun truthy :: "json \<Rightarrow> bool" where
  "truthy JNull = False"
| "truthy (JBool b) = b"
| "truthy (JInt i) = (i \<noteq> 0)"
| "truthy (JStr s) = (s \<noteq> [])"
| "truthy (JArr xs) = (xs \<noteq> [])"
| "truthy (JObj kvs) = (kvs \<noteq> [])"

text \<open>\<^verbatim>\<open>not d.get(k)\<close>: a missing key gives \<^verbatim>\<open>None\<close>, which is false.\<close>

definition get_truthy :: "dict \<Rightarrow> string \<Rightarrow> bool" where
  "get_truthy kvs k = (case map_of kvs k of None \<Rightarrow> False | Some v \<Rightarrow> truthy v)"

section \<open>Strings\<close>

text \<open>
  A string is the list of its characters. The case mappings below are Python's on ASCII
  strings: the letters \<open>a\<close> to \<open>z\<close> and \<open>A\<close> to \<open>Z\<close> are cased, every other ASCII
  character is uncased. Python's mappings of the characters beyond ASCII are not
  modelled, so every property of a function that maps case is stated for ASCII strings
  (\<open>ascii_string\<close>) only.
\<close>

definition is_ascii :: "char \<Rightarrow> bool" where
  "is_ascii c = ((of_char c :: nat) < 128)"

definition ascii_string :: "string \<Rightarrow> bool" where
  "ascii_string s = list_all is_ascii s"

definition is_lower :: "char \<Rightarrow> bool" where
  "is_lower c = (97 \<le> (of_char c :: nat) \<and> (of_char c :: nat) \<le> 122)"

definition is_upper :: "char \<Rightarrow> bool" where
  "is_upper c = (65 \<le> (of_char c :: nat) \<and> (of_char c :: nat) \<le> 90)"

definition to_upper :: "char \<Rightarrow> char" where
  "to_upper c = (if is_lower c then char_of ((of_char c :: nat) - 32) else c)"

definition to_lower :: "char \<Rightarrow> char" where
  "to_lower c = (if is_upper c then char_of ((of_char c :: nat) + 32) else c)"

text \<open>\<^verbatim>\<open>s.split(c)\<close> for a one-character separator: never the empty list.\<close>

fun split_on :: "char \<Rightarrow> string \<Rightarrow> string list" where
  "split_on c [] = [[]]"
| "split_on c (x # xs) =
     (if x = c then [] # split_on c xs
      else (x # hd (split_on c xs)) # tl (split_on c xs))"

text \<open>
  \<^verbatim>\<open>s.title()\<close> for an ASCII string \<open>s\<close>: a letter is uppercased when the character
  before it is not a letter (or it is the first), lowercased when the character before
  it is a letter. (For a string with other characters Python uses the Unicode case
  mappings, which these two functions do not have.)
\<close>

fun title_from :: "bool \<Rightarrow> string \<Rightarrow> string" where
  "title_from prev [] = []"
| "title_from prev (c # cs) =
     (if is_lower c \<or> is_upper c
      then (if prev then to_lower c else to_upper c) # title_from True cs
      else c # title_from False cs)"

definition title :: "string \<Rightarrow> string" where
  "title s = title_from False s"

text \<open>\<^verbatim>\<open>snake_to_camel\<close> (the same body in openapi_fixes.py and convert_naming.py).\<close>

definition snake_to_camel :: "string \<Rightarrow> string" where
  "snake_to_camel snake_str =
     (let components = split_on (CHR ''_'') snake_str
      in hd components @ concat (map title (tl components)))"

text \<open>
  The spec's word for the later tokens is "capitalized": the first character uppercased.
  Two readings, \<^verbatim>\<open>str.capitalize\<close> (the rest lowercased) and the rest left as it is.
\<close>

fun capitalize :: "string \<Rightarrow> string" where
  "capitalize [] = []"
| "capitalize (c # cs) = to_upper c # map to_lower cs"

fun upper_first :: "string \<Rightarrow> string" where
  "upper_first [] = []"
| "upper_first (c # cs) = to_upper c # cs"

text \<open>
  The sentence of the specification with the word left open: the tokens between the
  underscores, the first as it is, each later one through \<open>cap\<close>.
\<close>

definition snake_to_camel_spec :: "(string \<Rightarrow> string) \<Rightarrow> string \<Rightarrow> string" where
  "snake_to_camel_spec cap s =
     (let tokens = split_on (CHR ''_'') s in hd tokens @ concat (map cap (tl tokens)))"

text \<open>\<^verbatim>\<open>c.join(ts)\<close>, to build an identifier from its tokens.\<close>

fun join_with :: "char \<Rightarrow> string list \<Rightarrow> string" where
  "join_with c [] = []"
| "join_with c [t] = t"
| "join_with c (t # ts) = t @ c # join_with c ts"

section \<open>Pattern-constraint removal (fix_openapi_spec.py)\<close>

function (sequential) remove_pattern_props :: "json \<Rightarrow> json" where
  "remove_pattern_props (JObj kvs) =
     JObj (map (\<lambda>kv. (fst kv, remove_pattern_props (snd kv)))
            (dict_del kvs ''patternProperties''))"
| "remove_pattern_props (JArr xs) = JArr (map remove_pattern_props xs)"
| "remove_pattern_props v = v"
  by pat_completeness auto
termination
proof (relation "measure size")
  show "wf (measure (size :: json \<Rightarrow> nat))" by simp
next
  fix kvs :: dict and x
  assume "x \<in> set (dict_del kvs ''patternProperties'')"
  then have "x \<in> set kvs" by (simp add: dict_del_def)
  then have "size (snd x) < Suc (size_list (size_prod (\<lambda>x. 0) size) kvs)"
    by (induction kvs) (auto simp: less_Suc_eq_le)
  then show "(snd x, JObj kvs) \<in> measure size" by simp
next
  fix xs :: "json list" and x
  assume "x \<in> set xs"
  then have "size x < Suc (size_list size xs)"
    by (induction xs) auto
  then show "(x, JArr xs) \<in> measure size" by simp
qed

definition remove_pattern_properties :: "json \<Rightarrow> json" where
  "remove_pattern_properties spec = remove_pattern_props spec"

text \<open>A dictionary at any depth has the key.\<close>

fun has_key_anywhere :: "string \<Rightarrow> json \<Rightarrow> bool" where
  "has_key_anywhere k (JObj kvs) =
     (k \<in> fst ` set kvs \<or> (\<exists>kv \<in> set kvs. has_key_anywhere k (snd kv)))"
| "has_key_anywhere k (JArr xs) = (\<exists>x \<in> set xs. has_key_anywhere k x)"
| "has_key_anywhere k v = False"

text \<open>Addressing a node of a document by the keys and list indices that lead to it.\<close>

datatype seg = Key string | Idx nat

fun lookup_path :: "json \<Rightarrow> seg list \<Rightarrow> json option" where
  "lookup_path v [] = Some v"
| "lookup_path (JObj kvs) (Key k # p) =
     (case map_of kvs k of None \<Rightarrow> None | Some v \<Rightarrow> lookup_path v p)"
| "lookup_path (JArr xs) (Idx i # p) =
     (if i < length xs then lookup_path (xs ! i) p else None)"
| "lookup_path v (s # p) = None"



section \<open>Python's operators on document values\<close>

text \<open>\<^verbatim>\<open>s.startswith(p)\<close> and \<^verbatim>\<open>sub in s\<close> on strings.\<close>

fun starts_with :: "string \<Rightarrow> string \<Rightarrow> bool" where
  "starts_with s [] = True"
| "starts_with [] (p # ps) = False"
| "starts_with (c # cs) (p # ps) = (c = p \<and> starts_with cs ps)"

fun contains :: "string \<Rightarrow> string \<Rightarrow> bool" where
  "contains sub [] = (sub = [])"
| "contains sub (c # cs) = (starts_with (c # cs) sub \<or> contains sub cs)"

text \<open>\<^verbatim>\<open>s.strip(c)\<close>: every leading and trailing \<open>c\<close> removed.\<close>

definition py_strip :: "char \<Rightarrow> string \<Rightarrow> string" where
  "py_strip c s = rev (dropWhile (\<lambda>x. x = c) (rev (dropWhile (\<lambda>x. x = c) s)))"

text \<open>\<^verbatim>\<open>s.lower()\<close> for an ASCII string \<open>s\<close>.\<close>

definition py_lower :: "string \<Rightarrow> string" where
  "py_lower s = map to_lower s"

text \<open>
  \<^verbatim>\<open>k in x\<close>: a key of a dictionary, an item of a list, a substring of a string;
  any other value is not iterable.
\<close>

fun py_in :: "string \<Rightarrow> json \<Rightarrow> py_error + bool" where
  "py_in k (JObj kvs) = Inr (k \<in> fst ` set kvs)"
| "py_in k (JArr xs) = Inr (JStr k \<in> set xs)"
| "py_in k (JStr s) = Inr (contains k s)"
| "py_in k v = Inl TypeError"

text \<open>\<^verbatim>\<open>x[k]\<close> with a string \<open>k\<close>: lists and strings want an integer index.\<close>

fun py_getitem :: "json \<Rightarrow> string \<Rightarrow> py_error + json" where
  "py_getitem (JObj kvs) k = (case map_of kvs k of None \<Rightarrow> Inl KeyError | Some v \<Rightarrow> Inr v)"
| "py_getitem v k = Inl TypeError"

text \<open>\<^verbatim>\<open>x.get(k, d)\<close>: only a dictionary has the method.\<close>

fun py_get :: "json \<Rightarrow> string \<Rightarrow> json \<Rightarrow> py_error + json" where
  "py_get (JObj kvs) k d = (case map_of kvs k of None \<Rightarrow> Inr d | Some v \<Rightarrow> Inr v)"
| "py_get v k d = Inl AttributeError"

text \<open>\<^verbatim>\<open>for item in x\<close>: a dictionary gives its keys, a string its characters.\<close>

fun py_iter :: "json \<Rightarrow> py_error + json list" where
  "py_iter (JArr xs) = Inr xs"
| "py_iter (JObj kvs) = Inr (map (\<lambda>kv. JStr (fst kv)) kvs)"
| "py_iter (JStr s) = Inr (map (\<lambda>c. JStr [c]) s)"
| "py_iter v = Inl TypeError"

fun py_len :: "json \<Rightarrow> py_error + nat" where
  "py_len (JArr xs) = Inr (length xs)"
| "py_len (JObj kvs) = Inr (length kvs)"
| "py_len (JStr s) = Inr (length s)"
| "py_len v = Inl TypeError"

section \<open>The named schemas of a document\<close>

text \<open>
  \<^verbatim>\<open>schemas = spec.get('components', {}).get('schemas', {})\<close> followed by
  \<^verbatim>\<open>schemas.items()\<close>: a missing table is a fresh empty dictionary, a value that is
  not a dictionary has neither method.
\<close>

definition get_schemas :: "json \<Rightarrow> py_error + dict" where
  "get_schemas spec =
     (case py_get spec ''components'' (JObj []) of
        Inl e \<Rightarrow> Inl e
      | Inr components \<Rightarrow>
          (case py_get components ''schemas'' (JObj []) of
             Inl e \<Rightarrow> Inl e
           | Inr (JObj schemas) \<Rightarrow> Inr schemas
           | Inr _ \<Rightarrow> Inl AttributeError))"

text \<open>
  The passes assign to \<^verbatim>\<open>schemas[name]\<close>, which changes the table inside the document
  when the table is part of it, and a dictionary of its own otherwise.
\<close>

definition put_schemas :: "json \<Rightarrow> dict \<Rightarrow> json" where
  "put_schemas spec schemas =
     (case spec of
        JObj root \<Rightarrow>
          (case map_of root ''components'' of
             Some (JObj components) \<Rightarrow>
               (case map_of components ''schemas'' of
                  Some _ \<Rightarrow>
                    JObj (dict_set root ''components''
                      (JObj (dict_set components ''schemas'' (JObj schemas))))
                | None \<Rightarrow> spec)
           | _ \<Rightarrow> spec)
      | _ \<Rightarrow> spec)"

text \<open>
  \<^verbatim>\<open>for name, schema in schemas.items(): ... schemas[name] = ...\<close>. Each round reads its
  own entry and the key set, and writes its own entry, so the loop maps the entries in
  order; the first exception ends it.
\<close>

fun for_schemas :: "(string \<Rightarrow> json \<Rightarrow> py_error + json) \<Rightarrow> dict \<Rightarrow> py_error + dict" where
  "for_schemas f [] = Inr []"
| "for_schemas f ((name, schema) # rest) =
     (case f name schema of
        Inl e \<Rightarrow> Inl e
      | Inr schema' \<Rightarrow>
          (case for_schemas f rest of
             Inl e \<Rightarrow> Inl e
           | Inr rest' \<Rightarrow> Inr ((name, schema') # rest')))"

definition each_schema :: "(string \<Rightarrow> json \<Rightarrow> py_error + json) \<Rightarrow> json \<Rightarrow> py_error + json" where
  "each_schema f spec =
     (case get_schemas spec of
        Inl e \<Rightarrow> Inl e
      | Inr schemas \<Rightarrow>
          (case for_schemas f schemas of
             Inl e \<Rightarrow> Inl e
           | Inr schemas' \<Rightarrow> Inr (put_schemas spec schemas')))"

section \<open>Empty-schema resolution (fix_openapi_spec.py)\<close>

definition empty_schema_fixes :: dict where
  "empty_schema_fixes =
    [(''AccountId'', JObj [(''type'', JStr ''string''),
        (''description'', JStr ''NEAR Account Identifier'')]),
     (''CryptoHash'', JObj [(''type'', JStr ''string''),
        (''description'', JStr ''Cryptographic hash'')]),
     (''PublicKey'', JObj [(''type'', JStr ''string''),
        (''description'', JStr ''Public key'')]),
     (''FunctionArgs'', JObj [(''type'', JStr ''string''), (''format'', JStr ''byte''),
        (''description'', JStr ''Base64-encoded function arguments'')]),
     (''CreateAccountAction'', JObj [(''type'', JStr ''object''),
        (''properties'', JObj [(''type'', JObj [(''type'', JStr ''string''),
            (''enum'', JArr [JStr ''CreateAccount'']),
            (''default'', JStr ''CreateAccount'')])]),
        (''required'', JArr [JStr ''type''])]),
     (''ShardId'', JObj [(''type'', JStr ''integer''), (''format'', JStr ''int64''),
        (''description'', JStr ''Shard identifier'')]),
     (''NearGas'', JObj [(''type'', JStr ''string''),
        (''description'', JStr ''NEAR Gas amount'')]),
     (''AccountIdValidityRulesVersion'', JObj [(''type'', JStr ''integer''),
        (''description'', JStr ''Account ID validity rules version'')]),
     (''MutableConfigValue'', JObj [(''type'', JStr ''object''),
        (''properties'', JObj [(''value'', JObj [(''type'', JStr ''string''),
            (''description'', JStr ''Configuration value'')])])]),
     (''RpcSplitStorageInfoRequest'', JObj [(''type'', JStr ''object''),
        (''properties'', JObj [(''request_type'', JObj [(''type'', JStr ''string''),
            (''default'', JStr ''split_storage_info'')])])])]"

definition default_fix :: "string \<Rightarrow> json" where
  "default_fix name =
     JObj [(''type'', JStr ''string''),
           (''description'', JStr (''Auto-fixed empty schema for '' @ name))]"

text \<open>The test of the loop: none of the six keywords has a true value.\<close>

definition is_empty_schema :: "dict \<Rightarrow> bool" where
  "is_empty_schema schema =
     (\<not> get_truthy schema ''properties'' \<and> \<not> get_truthy schema ''enum'' \<and>
      \<not> get_truthy schema ''anyOf'' \<and> \<not> get_truthy schema ''oneOf'' \<and>
      \<not> get_truthy schema ''allOf'' \<and> \<not> get_truthy schema ''type'')"

fun fix_empty_schema :: "string \<Rightarrow> json \<Rightarrow> py_error + json" where
  "fix_empty_schema name (JObj schema) =
     (if is_empty_schema schema then
        (if name \<in> fst ` set empty_schema_fixes
         then Inr (case map_of empty_schema_fixes name of
                     Some fixed \<Rightarrow> fixed | None \<Rightarrow> default_fix name)
         else Inr (default_fix name))
      else Inr (JObj schema))"
| "fix_empty_schema name schema = Inl AttributeError"

definition fix_empty_schemas :: "json \<Rightarrow> py_error + json" where
  "fix_empty_schemas spec = each_schema fix_empty_schema spec"

text \<open>The claim's reading of "empty": none of the six keywords is a key of the schema.\<close>

definition lacks_all_keywords :: "dict \<Rightarrow> bool" where
  "lacks_all_keywords schema =
     (\<forall>k \<in> set [''properties'', ''enum'', ''anyOf'', ''oneOf'', ''allOf'', ''type''].
        k \<notin> fst ` set schema)"

text \<open>\<^verbatim>\<open>empty_schema_fixes.get(name, default)\<close>, the value an empty schema is replaced by.\<close>

definition replacement :: "string \<Rightarrow> json" where
  "replacement name =
     (case map_of empty_schema_fixes name of Some fixed \<Rightarrow> fixed | None \<Rightarrow> default_fix name)"

section \<open>Union resolution (fix_openapi_spec.py)\<close>

text \<open>
  The branch for names with \<^verbatim>\<open>Rpc\<close> and \<^verbatim>\<open>Request\<close>: one property for each
  alternative that has \<^verbatim>\<open>$ref\<close> or \<^verbatim>\<open>type\<close>. A \<^verbatim>\<open>$ref\<close> that is not a string has no
  \<^verbatim>\<open>split\<close>; a title that is a list or a dictionary cannot be a key; a title that is a
  number, a boolean or \<^verbatim>\<open>None\<close> would be a key that is not a string, which the documents
  here do not have (\<open>NonStringKey\<close>). A reference name with characters beyond ASCII would
  be lowercased by Python's Unicode mapping, which is not modelled (\<open>NonAscii\<close>). The model
  says nothing about the code on inputs that give one of these two values.
\<close>

fun rpc_properties :: "json list \<Rightarrow> dict \<Rightarrow> py_error + dict" where
  "rpc_properties [] properties = Inr properties"
| "rpc_properties (item # items) properties =
     (case py_in ''$ref'' item of
        Inl e \<Rightarrow> Inl e
      | Inr True \<Rightarrow>
          (case py_getitem item ''$ref'' of
             Inl e \<Rightarrow> Inl e
           | Inr (JStr ref) \<Rightarrow>
               (let ref_name = last (split_on (CHR ''/'') ref)
                in if ascii_string ref_name
                   then rpc_properties items (dict_set properties (py_lower ref_name) item)
                   else Inl NonAscii)
           | Inr _ \<Rightarrow> Inl AttributeError)
      | Inr False \<Rightarrow>
          (case py_in ''type'' item of
             Inl e \<Rightarrow> Inl e
           | Inr True \<Rightarrow>
               (case py_get item ''title'' (JStr ''value'') of
                  Inl e \<Rightarrow> Inl e
                | Inr (JStr key) \<Rightarrow> rpc_properties items (dict_set properties key item)
                | Inr (JArr _) \<Rightarrow> Inl TypeError
                | Inr (JObj _) \<Rightarrow> Inl TypeError
                | Inr _ \<Rightarrow> Inl NonStringKey)
           | Inr False \<Rightarrow> rpc_properties items properties))"

text \<open>The last branch: the first alternative that is true and is not \<^verbatim>\<open>{'type': 'null'}\<close>.\<close>

fun first_alternative :: "json list \<Rightarrow> json option" where
  "first_alternative [] = None"
| "first_alternative (item # items) =
     (if truthy item \<and> item \<noteq> JObj [(''type'', JStr ''null'')] then Some item
      else first_alternative items)"

definition block_id_schema :: "json \<Rightarrow> json" where
  "block_id_schema description =
     JObj [(''type'', JStr ''object''),
           (''description'', description),
           (''properties'',
            JObj [(''block_hash'', JObj [(''type'', JStr ''string''),
                     (''description'', JStr ''Block hash'')]),
                  (''block_height'', JObj [(''type'', JStr ''integer''),
                     (''format'', JStr ''int64''),
                     (''description'', JStr ''Block height'')])])]"

definition fix_anyof_schema :: "string \<Rightarrow> json \<Rightarrow> py_error + json" where
  "fix_anyof_schema name schema =
     (case py_in ''anyOf'' schema of
        Inl e \<Rightarrow> Inl e
      | Inr False \<Rightarrow> Inr schema
      | Inr True \<Rightarrow>
          (case py_getitem schema ''anyOf'' of
             Inl e \<Rightarrow> Inl e
           | Inr anyof_items \<Rightarrow>
               if name = ''BlockId'' then
                 (case py_get schema ''description'' (JStr []) of
                    Inl e \<Rightarrow> Inl e
                  | Inr description \<Rightarrow> Inr (block_id_schema description))
               else if contains ''Rpc'' name \<and> contains ''Request'' name then
                 (case py_iter anyof_items of
                    Inl e \<Rightarrow> Inl e
                  | Inr items \<Rightarrow>
                      (case rpc_properties items [] of
                         Inl e \<Rightarrow> Inl e
                       | Inr properties \<Rightarrow>
                           if properties \<noteq> [] then
                             (case py_get schema ''description'' (JStr []) of
                                Inl e \<Rightarrow> Inl e
                              | Inr description \<Rightarrow>
                                  Inr (JObj [(''type'', JStr ''object''),
                                             (''description'', description),
                                             (''properties'', JObj properties)]))
                           else Inr schema))
               else
                 (case py_len anyof_items of
                    Inl e \<Rightarrow> Inl e
                  | Inr n \<Rightarrow>
                      if n > 0 then
                        (case py_iter anyof_items of
                           Inl e \<Rightarrow> Inl e
                         | Inr items \<Rightarrow>
                             (case first_alternative items of
                                Some item \<Rightarrow> Inr item
                              | None \<Rightarrow> Inr schema))
                      else Inr schema)))"

definition fix_anyof_schemas :: "json \<Rightarrow> py_error + json" where
  "fix_anyof_schemas spec = each_schema fix_anyof_schema spec"

section \<open>Structural cleanup (fix_openapi_spec.py)\<close>

text \<open>
  One round of the loop of \<^verbatim>\<open>fix_problematic_patterns\<close>; \<open>names\<close> are the keys of the
  schema table. Both tests read the schema the round started with; the second
  assignment, when it happens, replaces the first.
\<close>

definition fix_problematic_pattern :: "string list \<Rightarrow> string \<Rightarrow> json \<Rightarrow> py_error + json" where
  "fix_problematic_pattern names name schema =
     (case py_len schema of
        Inl e \<Rightarrow> Inl e
      | Inr n \<Rightarrow>
          (case (if n = 1 then py_in ''description'' schema else Inr False) of
             Inl e \<Rightarrow> Inl e
           | Inr only_description \<Rightarrow>
               (case (if only_description then
                        (case py_getitem schema ''description'' of
                           Inl e \<Rightarrow> Inl e
                         | Inr description \<Rightarrow>
                             Inr (JObj [(''type'', JStr ''string''),
                                        (''description'', description)]))
                      else Inr schema) of
                  Inl e \<Rightarrow> Inl e
                | Inr current \<Rightarrow>
                    (case py_in ''$ref'' schema of
                       Inl e \<Rightarrow> Inl e
                     | Inr False \<Rightarrow> Inr current
                     | Inr True \<Rightarrow>
                         (case py_getitem schema ''$ref'' of
                            Inl e \<Rightarrow> Inl e
                          | Inr (JStr ref) \<Rightarrow>
                              if starts_with ref ''#/components/schemas/'' then
                                (let ref_name = last (split_on (CHR ''/'') ref)
                                 in if ref_name \<notin> set names
                                    then Inr (JObj [(''type'', JStr ''string''),
                                           (''description'',
                                            JStr (''Reference to '' @ ref_name))])
                                    else Inr current)
                              else Inr current
                          | Inr _ \<Rightarrow> Inl AttributeError)))))"

definition fix_problematic_patterns :: "json \<Rightarrow> py_error + json" where
  "fix_problematic_patterns spec =
     (case get_schemas spec of
        Inl e \<Rightarrow> Inl e
      | Inr schemas \<Rightarrow>
          (case for_schemas (fix_problematic_pattern (map fst schemas)) schemas of
             Inl e \<Rightarrow> Inl e
           | Inr schemas' \<Rightarrow> Inr (put_schemas spec schemas')))"

section \<open>The four passes of main (fix_openapi_spec.py)\<close>

definition apply_all_fixes :: "json \<Rightarrow> py_error + json" where
  "apply_all_fixes spec =
     (case fix_empty_schemas spec of
        Inl e \<Rightarrow> Inl e
      | Inr spec1 \<Rightarrow>
          (case fix_anyof_schemas spec1 of
             Inl e \<Rightarrow> Inl e
           | Inr spec2 \<Rightarrow>
               (case fix_problematic_patterns spec2 of
                  Inl e \<Rightarrow> Inl e
                | Inr spec3 \<Rightarrow> Inr (remove_pattern_properties spec3))))"

section \<open>Endpoint collapsing (the first step of fix_openapi_spec, openapi_fixes.py)\<close>

fun collect_methods :: "dict \<Rightarrow> dict \<Rightarrow> py_error + dict" where
  "collect_methods [] all_methods = Inr all_methods"
| "collect_methods ((path, path_item) # rest) all_methods =
     (case py_in ''post'' path_item of
        Inl e \<Rightarrow> Inl e
      | Inr False \<Rightarrow> collect_methods rest all_methods
      | Inr True \<Rightarrow>
          (case py_getitem path_item ''post'' of
             Inl e \<Rightarrow> Inl e
           | Inr operation \<Rightarrow>
               collect_methods rest
                 (dict_set all_methods (py_strip (CHR ''/'') path) operation)))"

definition jsonrpc_operation :: "dict \<Rightarrow> json" where
  "jsonrpc_operation all_methods =
     JObj [(''description'', JStr ''NEAR JSON-RPC endpoint''),
           (''operationId'', JStr ''jsonrpc''),
           (''x-methods'', JObj all_methods),
           (''requestBody'',
            JObj [(''content'', JObj [(''application/json'', JObj [(''schema'',
              JObj [(''$ref'', JStr ''#/components/schemas/JsonRpcRequest'')])])])]),
           (''responses'',
            JObj [(''200'', JObj [(''description'', JStr ''Successful response''),
              (''content'', JObj [(''application/json'', JObj [(''schema'',
                JObj [(''$ref'', JStr ''#/components/schemas/JsonRpcResponse'')])])])])])]"

definition collapse_paths :: "json \<Rightarrow> py_error + json" where
  "collapse_paths spec =
     (case py_in ''paths'' spec of
        Inl e \<Rightarrow> Inl e
      | Inr False \<Rightarrow> Inr spec
      | Inr True \<Rightarrow>
          (case py_getitem spec ''paths'' of
             Inl e \<Rightarrow> Inl e
           | Inr (JObj paths) \<Rightarrow>
               (case collect_methods paths [] of
                  Inl e \<Rightarrow> Inl e
                | Inr all_methods \<Rightarrow>
                    (case spec of
                       JObj root \<Rightarrow>
                         Inr (JObj (dict_set root ''paths''
                           (JObj [(''/'', JObj [(''post'', jsonrpc_operation all_methods)])])))
                     | _ \<Rightarrow> Inl TypeError))
           | Inr _ \<Rightarrow> Inl AttributeError))"

text \<open>The methods a path table contributes, in the order of the paths.\<close>

fun post_entries :: "dict \<Rightarrow> dict" where
  "post_entries [] = []"
| "post_entries ((path, JObj path_item) # rest) =
     (case map_of path_item ''post'' of
        Some operation \<Rightarrow> (py_strip (CHR ''/'') path, operation) # post_entries rest
      | None \<Rightarrow> post_entries rest)"
| "post_entries ((path, v) # rest) = post_entries rest"

text \<open>
  The two values a round of \<^verbatim>\<open>fix_problematic_patterns\<close> can assign: the string schema
  for a lost reference, and the schema itself, promoted to a string schema when it
  consists of a description only.
\<close>

definition reference_to :: "string \<Rightarrow> json" where
  "reference_to ref =
     JObj [(''type'', JStr ''string''),
           (''description'', JStr (''Reference to '' @ last (split_on (CHR ''/'') ref)))]"

definition promoted :: "dict \<Rightarrow> json" where
  "promoted d =
     (if length d = 1 \<and> ''description'' \<in> fst ` set d
      then JObj [(''type'', JStr ''string''),
                 (''description'', the (map_of d ''description''))]
      else JObj d)"

section \<open>The repair as a whole\<close>

text \<open>
  The five passes in the order the specification gives them: the four of \<^verbatim>\<open>main\<close> in
  fix_openapi_spec.py, then the collapsing step of openapi_fixes.py.
\<close>

definition schema_repair :: "json \<Rightarrow> py_error + json" where
  "schema_repair spec =
     (case apply_all_fixes spec of
        Inl e \<Rightarrow> Inl e
      | Inr fixed \<Rightarrow> collapse_paths fixed)"

text \<open>The value of a keyword of a schema, when the schema is a dictionary that has it.\<close>

definition keyword :: "string \<Rightarrow> json \<Rightarrow> json option" where
  "keyword k schema = (case schema of JObj d \<Rightarrow> map_of d k | _ \<Rightarrow> None)"

definition has_keyword :: "string \<Rightarrow> json \<Rightarrow> bool" where
  "has_keyword k schema = (keyword k schema \<noteq> None)"

section \<open>Regular expressions as Python's re module matches them\<close>

text \<open>
  The patterns of the rewrite passes, for ASCII text. A match state is the text before the
  current position (reversed), the text from the position on, and the groups captured so
  far. \<open>re_match\<close> gives every way a pattern matches at a position, in the order in which
  the backtracking matcher of \<^verbatim>\<open>re\<close> tries them, so the match \<^verbatim>\<open>re\<close> reports is the first
  of the list: an alternative tries its left side first, a repetition is greedy and gives
  back one round at a time. \<open>Bol\<close> is \<^verbatim>\<open>^\<close> under \<^verbatim>\<open>re.MULTILINE\<close>.
\<close>

datatype re =
    Lit string
  | Cls "char \<Rightarrow> bool"
  | Seq re re
  | Alt re re
  | Star re
  | Group re
  | Bol

type_synonym mstate = "string \<times> string \<times> string list"

definition rest_of :: "mstate \<Rightarrow> string" where
  "rest_of st = fst (snd st)"

text \<open>
  A repetition: the rounds that are tried again are those that consumed a character (every
  round of the patterns below does).
\<close>

function star :: "(mstate \<Rightarrow> mstate list) \<Rightarrow> mstate \<Rightarrow> mstate list" where
  "star f st =
     concat (map (\<lambda>st'. if length (rest_of st') < length (rest_of st) then star f st' else [])
               (f st)) @ [st]"
  by pat_completeness auto
termination
  by (relation "measure (\<lambda>(f, st). length (rest_of st))") auto

declare star.simps [simp del]

fun re_match :: "re \<Rightarrow> mstate \<Rightarrow> mstate list" where
  "re_match (Lit l) (b, s, g) =
     (if starts_with s l then [(rev l @ b, drop (length l) s, g)] else [])"
| "re_match (Cls p) (b, s, g) =
     (case s of [] \<Rightarrow> [] | c # cs \<Rightarrow> if p c then [(c # b, cs, g)] else [])"
| "re_match (Seq r1 r2) st = concat (map (\<lambda>st'. re_match r2 st') (re_match r1 st))"
| "re_match (Alt r1 r2) st = re_match r1 st @ re_match r2 st"
| "re_match (Star r) st = star (\<lambda>st'. re_match r st') st"
| "re_match (Group r) (b, s, g) =
     map (\<lambda>(b', s', g'). (b', s', g' @ [rev (take (length b' - length b) b')]))
       (re_match r (b, s, g))"
| "re_match Bol (b, s, g) =
     (case b of [] \<Rightarrow> [(b, s, g)] | c # cs \<Rightarrow> if c = CHR 0x0A then [(b, s, g)] else [])"

definition Many1 :: "re \<Rightarrow> re" where
  "Many1 r = Seq r (Star r)"

fun seqs :: "re list \<Rightarrow> re" where
  "seqs [] = Lit []"
| "seqs [r] = r"
| "seqs (r # rs) = Seq r (seqs rs)"

text \<open>
  \<^verbatim>\<open>re.sub(pattern, repl, content)\<close>: the leftmost match at each position, from left to
  right; \<open>repl\<close> is given the text before the match (\<^verbatim>\<open>content[:match.start()]\<close>) and the
  groups. A position where the pattern does not match is copied. (A match of no
  characters, which none of the patterns below has, is replaced and the next character
  copied.)
\<close>

function sub_from :: "re \<Rightarrow> (string \<Rightarrow> string list \<Rightarrow> string) \<Rightarrow> string \<Rightarrow> string \<Rightarrow> string" where
  "sub_from r repl b s =
     (case re_match r (b, s, []) of
        (b', s', g) # _ \<Rightarrow>
          if length s' < length s then repl (rev b) g @ sub_from r repl b' s'
          else repl (rev b) g @
               (case s of [] \<Rightarrow> [] | c # cs \<Rightarrow> c # sub_from r repl (c # b) cs)
      | [] \<Rightarrow> (case s of [] \<Rightarrow> [] | c # cs \<Rightarrow> c # sub_from r repl (c # b) cs))"
  by pat_completeness auto
termination
  by (relation "measure (\<lambda>(r, repl, b, s). length s)") auto

declare sub_from.simps [simp del]

definition re_sub :: "re \<Rightarrow> (string \<Rightarrow> string list \<Rightarrow> string) \<Rightarrow> string \<Rightarrow> string" where
  "re_sub r repl content = sub_from r repl [] content"

text \<open>The character classes \<^verbatim>\<open>\s\<close>, \<^verbatim>\<open>\w\<close> and the negated one-character classes.\<close>

definition is_space :: "char \<Rightarrow> bool" where
  "is_space c = (c \<in> set [CHR '' '', CHR 0x09, CHR 0x0A, CHR 0x0B, CHR 0x0C, CHR 0x0D])"

definition is_digit :: "char \<Rightarrow> bool" where
  "is_digit c = (48 \<le> (of_char c :: nat) \<and> (of_char c :: nat) \<le> 57)"

definition is_word :: "char \<Rightarrow> bool" where
  "is_word c = (is_lower c \<or> is_upper c \<or> is_digit c \<or> c = CHR ''_'')"

definition wsp :: re where "wsp = Cls is_space"
definition word :: re where "word = Cls is_word"
definition other_than :: "char \<Rightarrow> re" where "other_than c = Cls (\<lambda>x. x \<noteq> c)"

definition dquote :: char where "dquote = CHR 0x22"
definition newline :: char where "newline = CHR 0x0A"

text \<open>
  \<^verbatim>\<open>s.lstrip()\<close> and \<^verbatim>\<open>s.strip()\<close> (of ASCII white space), \<^verbatim>\<open>s.replace(a, b)\<close> for
  characters, \<^verbatim>\<open>sep.join(xs)\<close>.
\<close>

definition lstrip :: "string \<Rightarrow> string" where
  "lstrip s = dropWhile is_space s"

definition strip :: "string \<Rightarrow> string" where
  "strip s = rev (dropWhile is_space (rev (dropWhile is_space s)))"

definition replace_char :: "char \<Rightarrow> char \<Rightarrow> string \<Rightarrow> string" where
  "replace_char a b s = map (\<lambda>c. if c = a then b else c) s"

fun join_str :: "string \<Rightarrow> string list \<Rightarrow> string" where
  "join_str sep [] = []"
| "join_str sep [x] = x"
| "join_str sep (x # xs) = x @ sep @ join_str sep xs"

section \<open>The rewrite passes over a generated file (openapi_fixes.py)\<close>

definition fix_imports :: "string \<Rightarrow> string" where
  "fix_imports content =
     (let content1 =
        (if contains ''@Serializable'' content \<and> \<not> contains ''import kotlinx.serialization'' content
         then ''import kotlinx.serialization.Serializable'' @ [newline] @ content
         else content)
      in if contains ''@SerialName'' content1 \<and>
            \<not> contains ''import kotlinx.serialization.SerialName'' content1
         then ''import kotlinx.serialization.SerialName'' @ [newline] @ content1
         else content1)"

text \<open>\<^verbatim>\<open>val\s+([a-z]+(?:_[a-z]+)+)\s*:\<close>\<close>

definition property_pattern :: re where
  "property_pattern =
     seqs [Lit ''val'', Many1 wsp,
           Group (Seq (Many1 (Cls is_lower)) (Many1 (Seq (Lit ''_'') (Many1 (Cls is_lower))))),
           Star wsp, Lit '':'']"

definition replace_property :: "string \<Rightarrow> string list \<Rightarrow> string" where
  "replace_property before groups =
     (let snake_name = groups ! 0;
          camel_name = snake_to_camel snake_name;
          last_line = last (split_on newline before)
      in if \<not> contains ''@SerialName'' last_line then
           (let indent = length last_line - length (lstrip last_line);
                annotation = replicate indent (CHR '' '') @ ''@SerialName('' @ [dquote] @
                   snake_name @ [dquote] @ '')'' @ [newline]
            in annotation @ replicate indent (CHR '' '') @ ''val '' @ camel_name @ '':'')
         else ''val '' @ camel_name @ '':'')"

definition fix_serialization_annotations :: "string \<Rightarrow> string" where
  "fix_serialization_annotations content = re_sub property_pattern replace_property content"

text \<open>\<^verbatim>\<open>:\s*Optional<([^>]+)>\<close> to \<^verbatim>\<open>: \1?\<close> and \<^verbatim>\<open>:\s*Array<([^>]+)>\<close> to \<^verbatim>\<open>: List<\1>\<close>\<close>

definition generic_pattern :: "string \<Rightarrow> re" where
  "generic_pattern name =
     seqs [Lit '':'', Star wsp, Lit (name @ ''<''), Group (Many1 (other_than (CHR ''>''))),
           Lit ''>'']"

definition fix_nullable_types_kotlin :: "string \<Rightarrow> string" where
  "fix_nullable_types_kotlin content =
     (let content1 = re_sub (generic_pattern ''Optional'')
                       (\<lambda>before groups. '': '' @ groups ! 0 @ ''?'') content
      in re_sub (generic_pattern ''Array'')
           (\<lambda>before groups. '': List<'' @ groups ! 0 @ ''>'') content1)"

text \<open>
  \<^verbatim>\<open>^(data\s+class\s+\w+)\<close> and \<^verbatim>\<open>^(enum\s+class\s+\w+)\<close> under \<^verbatim>\<open>re.MULTILINE\<close>, then
  \<^verbatim>\<open>(@Serializable\s*\n)+\<close>, whose group the replacement does not use.
\<close>

definition class_pattern :: "string \<Rightarrow> re" where
  "class_pattern kind =
     seqs [Bol, Group (seqs [Lit kind, Many1 wsp, Lit ''class'', Many1 wsp, Many1 word])]"

definition add_serializable_annotations :: "string \<Rightarrow> string" where
  "add_serializable_annotations content =
     (let mark = (\<lambda>before groups. ''@Serializable'' @ [newline] @ groups ! 0);
          content1 = re_sub (class_pattern ''data'') mark content;
          content2 = re_sub (class_pattern ''enum'') mark content1
      in re_sub (Many1 (seqs [Lit ''@Serializable'', Star wsp, Lit [newline]]))
           (\<lambda>before groups. ''@Serializable'' @ [newline]) content2)"

text \<open>\<^verbatim>\<open>enum\s+class\s+(\w+)[^{]*\{([^}]+)\}\<close>\<close>

definition enum_pattern :: re where
  "enum_pattern =
     seqs [Lit ''enum'', Many1 wsp, Lit ''class'', Many1 wsp, Group (Many1 word),
           Star (other_than (CHR ''{'')), Lit ''{'',
           Group (Many1 (other_than (CHR ''}''))), Lit ''}'']"

definition fix_value :: "string \<Rightarrow> string" where
  "fix_value v =
     (let v = strip v
      in if \<not> contains ''@SerialName'' v then
           (let original = py_lower (replace_char (CHR ''_'') (CHR ''-'') v)
            in ''    @SerialName('' @ [dquote] @ original @ [dquote] @ '')'' @ [newline] @
               ''    '' @ v)
         else ''    '' @ v)"

definition fix_enum :: "string \<Rightarrow> string list \<Rightarrow> string" where
  "fix_enum before groups =
     (let enum_name = groups ! 0;
          enum_body = groups ! 1;
          values = split_on (CHR '','') (strip enum_body);
          fixed_values = map fix_value (filter (\<lambda>v. strip v \<noteq> []) values);
          values_str = join_str ('','' @ [newline]) fixed_values
      in ''enum class '' @ enum_name @ '' {'' @ [newline] @ values_str @ [newline] @ ''}'')"

definition fix_enum_serialization :: "string \<Rightarrow> string" where
  "fix_enum_serialization content = re_sub enum_pattern fix_enum content"

text \<open>
  \<^verbatim>\<open>@(GET|POST|PUT|DELETE)\("([^"]+)"\)\s*\n\s*suspend fun (\w+)\<close>,
  \<^verbatim>\<open>interface\s+\w+Api\s*\{\<close> and \<^verbatim>\<open>retrofit\.create\(\w+Api::class\.java\)\<close>
\<close>

definition http_method_pattern :: re where
  "http_method_pattern =
     seqs [Lit ''@'',
           Group (Alt (Lit ''GET'') (Alt (Lit ''POST'') (Alt (Lit ''PUT'') (Lit ''DELETE'')))),
           Lit (''('' @ [dquote]), Group (Many1 (other_than dquote)), Lit ([dquote] @ '')''),
           Star wsp, Lit [newline], Star wsp, Lit ''suspend fun '', Group (Many1 word)]"

definition fix_api_client_paths :: "string \<Rightarrow> string" where
  "fix_api_client_paths content =
     (let content1 = re_sub http_method_pattern
                       (\<lambda>before groups. ''suspend fun '' @ groups ! 2) content;
          content2 = re_sub (seqs [Lit ''interface'', Many1 wsp, Many1 word, Lit ''Api'', Star wsp,
                                   Lit ''{''])
                       (\<lambda>before groups. ''interface NearJsonRpcApi {'') content1
      in re_sub (seqs [Lit ''retrofit.create('', Many1 word, Lit ''Api::class.java)''])
           (\<lambda>before groups. ''retrofit.create(NearJsonRpcApi::class.java)'') content2)"

text \<open>The six rewrites \<^verbatim>\<open>fix_generated_kotlin\<close> applies to the content of one file.\<close>

definition rewrite_file :: "string \<Rightarrow> string" where
  "rewrite_file content =
     fix_api_client_paths (fix_enum_serialization (add_serializable_annotations
       (fix_nullable_types_kotlin (fix_serialization_annotations (fix_imports content)))))"

text \<open>
  The alternatives for which the branch for \<^verbatim>\<open>Rpc\<close> \<^verbatim>\<open>Request\<close> names raises nothing and
  stays inside the model: a dictionary whose \<open>$ref\<close>, if any, is a string with an ASCII
  last segment and whose \<open>title\<close>, if any, is a string.
\<close>

definition plain_alternative :: "json \<Rightarrow> bool" where
  "plain_alternative item =
     (case item of
        JObj d \<Rightarrow>
          (case map_of d ''$ref'' of
             None \<Rightarrow> True
           | Some (JStr ref) \<Rightarrow> ascii_string (last (split_on (CHR ''/'') ref))
           | Some _ \<Rightarrow> False) \<and>
          (case map_of d ''title'' of
             None \<Rightarrow> True
           | Some (JStr t) \<Rightarrow> True
           | Some _ \<Rightarrow> False)
      | _ \<Rightarrow> False)"

definition plain_union_schema :: "json \<Rightarrow> bool" where
  "plain_union_schema schema =
     (case schema of
        JObj d \<Rightarrow>
          (case map_of d ''anyOf'' of
             None \<Rightarrow> True
           | Some (JArr items) \<Rightarrow> list_all plain_alternative items
           | Some _ \<Rightarrow> False)
      | _ \<Rightarrow> False)"

section \<open>Properties of the pattern-constraint removal\<close>


lemma rpp_no_key: "\<not> has_key_anywhere ''patternProperties'' (remove_pattern_props d)"
  by (induction d rule: remove_pattern_props.induct) (auto simp: dict_del_def)

lemma map_of_rpp:
  "k \<noteq> pp \<Longrightarrow>
   map_of (map (\<lambda>kv. (fst kv, f (snd kv))) (dict_del kvs pp)) k = map_option f (map_of kvs k)"
  by (induction kvs) (auto simp: dict_del_def)

lemma rpp_lookup:
  "Key ''patternProperties'' \<notin> set p \<Longrightarrow>
   lookup_path (remove_pattern_props d) p = map_option remove_pattern_props (lookup_path d p)"
proof (induction p arbitrary: d)
  case Nil
  then show ?case by simp
next
  case (Cons s p)
  show ?case
  proof (cases s)
    case (Key k)
    with Cons.prems have k: "k \<noteq> ''patternProperties''" by auto
    from Cons.prems have p: "Key ''patternProperties'' \<notin> set p" by simp
    show ?thesis
    proof (cases d)
      case (JObj kvs)
      then show ?thesis using Key k Cons.IH[OF p]
        by (simp add: map_of_rpp split: option.splits)
    qed (simp_all add: Key)
  next
    case (Idx i)
    from Cons.prems have p: "Key ''patternProperties'' \<notin> set p" by simp
    show ?thesis
    proof (cases d)
      case (JArr xs)
      then show ?thesis using Idx Cons.IH[OF p] by simp
    qed (simp_all add: Idx)
  qed
qed

lemma rpp_id: "\<not> has_key_anywhere ''patternProperties'' d \<Longrightarrow> remove_pattern_props d = d"
proof (induction d rule: remove_pattern_props.induct)
  case (1 kvs)
  from "1.prems" have nk: "''patternProperties'' \<notin> fst ` set kvs" by simp
  then have del: "dict_del kvs ''patternProperties'' = kvs"
    by (force simp: dict_del_def filter_id_conv)
  have "map (\<lambda>kv. (fst kv, remove_pattern_props (snd kv))) kvs = map (\<lambda>kv. kv) kvs"
  proof (rule map_cong[OF refl])
    fix kv assume kv: "kv \<in> set kvs"
    with "1.prems" have "\<not> has_key_anywhere ''patternProperties'' (snd kv)" by auto
    with "1.IH"[of kv] kv del have "remove_pattern_props (snd kv) = snd kv" by simp
    then show "(fst kv, remove_pattern_props (snd kv)) = kv" by simp
  qed
  then show ?case using del by simp
next
  case (2 xs)
  then have "map remove_pattern_props xs = map (\<lambda>x. x) xs"
    by (intro map_cong[OF refl]) auto
  then show ?case by simp
qed simp_all



text \<open>
  C9. After \<open>remove_pattern_properties\<close> no dictionary at any depth has the key
  \<open>patternProperties\<close>, and the pass only deletes: at every path that does not go through
  that key the result holds the cleaned node of the input, so a dictionary there keeps its
  other keys in their order, a list keeps its length, and any other value is the same;
  a document without the key is returned as it is.
\<close>

theorem remove_pattern_properties_pure_deletion:
  "\<not> has_key_anywhere ''patternProperties'' (remove_pattern_properties spec) \<and>
   (\<forall>p. Key ''patternProperties'' \<notin> set p \<longrightarrow>
      lookup_path (remove_pattern_properties spec) p
        = map_option remove_pattern_props (lookup_path spec p) \<and>
      (\<forall>kvs. lookup_path spec p = Some (JObj kvs) \<longrightarrow>
         (\<exists>kvs'. lookup_path (remove_pattern_properties spec) p = Some (JObj kvs') \<and>
            map fst kvs' = filter (\<lambda>k. k \<noteq> ''patternProperties'') (map fst kvs))) \<and>
      (\<forall>xs. lookup_path spec p = Some (JArr xs) \<longrightarrow>
         (\<exists>xs'. lookup_path (remove_pattern_properties spec) p = Some (JArr xs') \<and>
            length xs' = length xs)) \<and>
      (\<forall>v. lookup_path spec p = Some v \<longrightarrow> (\<forall>kvs. v \<noteq> JObj kvs) \<longrightarrow>
         (\<forall>xs. v \<noteq> JArr xs) \<longrightarrow>
         lookup_path (remove_pattern_properties spec) p = Some v)) \<and>
   (\<not> has_key_anywhere ''patternProperties'' spec \<longrightarrow>
      remove_pattern_properties spec = spec)"
proof (intro conjI allI impI)
  show "\<not> has_key_anywhere ''patternProperties'' (remove_pattern_properties spec)"
    by (simp add: remove_pattern_properties_def rpp_no_key)
next
  fix p assume "Key ''patternProperties'' \<notin> set p"
  then show "lookup_path (remove_pattern_properties spec) p
        = map_option remove_pattern_props (lookup_path spec p)"
    by (simp add: remove_pattern_properties_def rpp_lookup)
next
  fix p kvs
  assume "Key ''patternProperties'' \<notin> set p" "lookup_path spec p = Some (JObj kvs)"
  then show "\<exists>kvs'. lookup_path (remove_pattern_properties spec) p = Some (JObj kvs') \<and>
            map fst kvs' = filter (\<lambda>k. k \<noteq> ''patternProperties'') (map fst kvs)"
    by (simp add: remove_pattern_properties_def rpp_lookup dict_del_def filter_map o_def)
next
  fix p xs
  assume "Key ''patternProperties'' \<notin> set p" "lookup_path spec p = Some (JArr xs)"
  then show "\<exists>xs'. lookup_path (remove_pattern_properties spec) p = Some (JArr xs') \<and>
            length xs' = length xs"
    by (simp add: remove_pattern_properties_def rpp_lookup)
next
  fix p v
  assume "Key ''patternProperties'' \<notin> set p" "lookup_path spec p = Some v"
    "\<forall>kvs. v \<noteq> JObj kvs" "\<forall>xs. v \<noteq> JArr xs"
  then show "lookup_path (remove_pattern_properties spec) p = Some v"
    by (cases v) (simp_all add: remove_pattern_properties_def rpp_lookup)
next
  assume "\<not> has_key_anywhere ''patternProperties'' spec"
  then show "remove_pattern_properties spec = spec"
    by (simp add: remove_pattern_properties_def rpp_id)
qed

theorem remove_pattern_properties_pure_deletion_witness:
  "Key ''patternProperties'' \<notin> set [Key ''a'', Idx 0, Key ''type''] \<and>
   lookup_path (JObj [(''patternProperties'', JObj [(''x'', JNull)]),
       (''a'', JArr [JObj [(''patternProperties'', JNull), (''type'', JStr ''object'')]])])
     [Key ''a'', Idx 0, Key ''type''] = Some (JStr ''object'') \<and>
   lookup_path (remove_pattern_properties
     (JObj [(''patternProperties'', JObj [(''x'', JNull)]),
       (''a'', JArr [JObj [(''patternProperties'', JNull), (''type'', JStr ''object'')]])]))
     [Key ''a'', Idx 0, Key ''type''] = Some (JStr ''object'') \<and>
   \<not> has_key_anywhere ''patternProperties'' (remove_pattern_properties
     (JObj [(''patternProperties'', JObj [(''x'', JNull)]),
       (''a'', JArr [JObj [(''patternProperties'', JNull), (''type'', JStr ''object'')]])])) \<and>
   \<not> has_key_anywhere ''patternProperties'' (JObj [(''a'', JInt 1)]) \<and>
   remove_pattern_properties (JObj [(''a'', JInt 1)]) = JObj [(''a'', JInt 1)]"
proof -
  have h1: "Key ''patternProperties'' \<notin> set [Key ''a'', Idx 0, Key ''type'']" by simp
  have h2: "\<not> has_key_anywhere ''patternProperties'' (JObj [(''a'', JInt 1)])" by simp
  show ?thesis
    using h1 h2
      remove_pattern_properties_pure_deletion [of "JObj [(''patternProperties'', JObj [(''x'', JNull)]),
       (''a'', JArr [JObj [(''patternProperties'', JNull), (''type'', JStr ''object'')]])]"]
      remove_pattern_properties_pure_deletion [of "JObj [(''a'', JInt 1)]"]
    by (simp add: remove_pattern_properties_def dict_del_def)
qed

section \<open>Properties of the naming conversion\<close>
lemma split_on_ne: "split_on c s \<noteq> []"
  by (induction s) auto

lemma split_on_no_sep: "c \<notin> set s \<Longrightarrow> split_on c s = [s]"
  by (induction s) auto

lemma split_on_tokens_no_sep: "t \<in> set (split_on c s) \<Longrightarrow> c \<notin> set t"
proof (induction s arbitrary: t)
  case Nil then show ?case by simp
next
  case (Cons x xs)
  obtain w ws where r: "split_on c xs = w # ws" using split_on_ne[of c xs] by (cases "split_on c xs") auto
  show ?case
  proof (cases "x = c")
    case True with Cons show ?thesis by auto
  next
    case False
    with Cons.prems r have "t = x # w \<or> t \<in> set ws" by simp
    then show ?thesis using Cons.IH r False by auto
  qed
qed

lemma split_on_append: "c \<notin> set t \<Longrightarrow> split_on c (t @ c # s) = t # split_on c s"
  by (induction t) auto

lemma split_on_join: "ts \<noteq> [] \<Longrightarrow> \<forall>t \<in> set ts. c \<notin> set t \<Longrightarrow> split_on c (join_with c ts) = ts"
  by (induction c ts rule: join_with.induct) (auto simp: split_on_no_sep split_on_append)

lemma of_char_to_upper: "is_lower c \<Longrightarrow> (of_char (to_upper c) :: nat) = of_char c - 32"
proof -
  assume l: "is_lower c"
  then have "(of_char c :: nat) - 32 < 256" unfolding is_lower_def by linarith
  then have "((of_char c :: nat) - 32) mod 256 = of_char c - 32" by (rule mod_less)
  with l show ?thesis by (simp add: to_upper_def)
qed

lemma of_char_to_lower: "is_upper c \<Longrightarrow> (of_char (to_lower c) :: nat) = of_char c + 32"
  by (simp add: to_lower_def is_upper_def)

lemma of_char_us: "(of_char (CHR ''_'') :: nat) = 95" by simp

lemma to_upper_not_us: "c \<noteq> CHR ''_'' \<Longrightarrow> to_upper c \<noteq> CHR ''_''"
proof (cases "is_lower c")
  case True
  then have "(of_char (to_upper c) :: nat) \<noteq> of_char (CHR ''_'')"
    unfolding of_char_us of_char_to_upper[OF True] using True unfolding is_lower_def by linarith
  then show ?thesis by auto
next
  case False
  assume "c \<noteq> CHR ''_''"
  with False show ?thesis by (simp add: to_upper_def)
qed

lemma to_lower_not_us: "c \<noteq> CHR ''_'' \<Longrightarrow> to_lower c \<noteq> CHR ''_''"
proof (cases "is_upper c")
  case True
  then have "(of_char (to_lower c) :: nat) \<noteq> of_char (CHR ''_'')"
    unfolding of_char_us by (simp add: of_char_to_lower) (simp add: is_upper_def)
  then show ?thesis by auto
next
  case False
  assume "c \<noteq> CHR ''_''"
  with False show ?thesis by (simp add: to_lower_def)
qed

lemma title_from_no_us: "CHR ''_'' \<notin> set s \<Longrightarrow> CHR ''_'' \<notin> set (title_from b s)"
proof (induction s arbitrary: b)
  case Nil
  then show ?case by simp
next
  case (Cons c cs)
  then have c: "c \<noteq> CHR ''_''" and cs: "CHR ''_'' \<notin> set cs" by auto
  have u: "to_upper c \<noteq> CHR ''_''" and l: "to_lower c \<noteq> CHR ''_''"
    using c by (rule to_upper_not_us, rule to_lower_not_us)
  have "CHR ''_'' \<notin> set (title_from True cs)" "CHR ''_'' \<notin> set (title_from False cs)"
    using Cons.IH[OF cs] by blast+
  with c u l show ?case by (simp add: eq_commute[of "CHR ''_''"])
qed

lemma snake_to_camel_no_us: "CHR ''_'' \<notin> set (snake_to_camel s)"
proof -
  have ne: "split_on (CHR ''_'') s \<noteq> []" by (rule split_on_ne)
  have "\<forall>t \<in> set (split_on (CHR ''_'') s). CHR ''_'' \<notin> set t"
    using split_on_tokens_no_sep by blast
  moreover have "hd (split_on (CHR ''_'') s) \<in> set (split_on (CHR ''_'') s)" using ne by simp
  moreover have "set (tl (split_on (CHR ''_'') s)) \<subseteq> set (split_on (CHR ''_'') s)"
    using ne by (cases "split_on (CHR ''_'') s") auto
  ultimately show ?thesis
    by (auto simp: snake_to_camel_def Let_def title_def dest: title_from_no_us)
qed

lemma snake_to_camel_idem: "snake_to_camel (snake_to_camel s) = snake_to_camel s"
proof -
  have "split_on (CHR ''_'') (snake_to_camel s) = [snake_to_camel s]"
    by (rule split_on_no_sep) (rule snake_to_camel_no_us)
  then show ?thesis by (simp add: snake_to_camel_def[of "snake_to_camel s"])
qed

lemma title_from_lower: "\<forall>c \<in> set s. is_lower c \<Longrightarrow> title_from True s = s"
  by (induction s) (auto simp: to_lower_def is_lower_def is_upper_def)

lemma title_lower: "\<forall>c \<in> set s. is_lower c \<Longrightarrow> title s = upper_first s"
  by (cases s) (auto simp: title_def title_from_lower)

lemma title_lower_capitalize: "\<forall>c \<in> set s. is_lower c \<Longrightarrow> title s = capitalize s"
proof (cases s)
  case Nil
  then show ?thesis by (simp add: title_def)
next
  case (Cons c cs)
  assume a: "\<forall>c \<in> set s. is_lower c"
  with Cons have "map to_lower cs = map (\<lambda>x. x) cs"
    by (intro map_cong[OF refl]) (auto simp: to_lower_def is_lower_def is_upper_def)
  with a Cons show ?thesis by (simp add: title_def title_from_lower)
qed

lemma snake_to_camel_tokens:
  "\<forall>x \<in> set (t # ts). CHR ''_'' \<notin> set x \<Longrightarrow>
   snake_to_camel (join_with (CHR ''_'') (t # ts)) = t @ concat (map title ts)"
  by (simp add: snake_to_camel_def split_on_join del: join_with.simps)


text \<open>
  C10 (as the code has it, for ASCII strings). \<open>snake_to_camel\<close> is a total function of
  its argument. On an identifier built from ASCII tokens without underscores it returns
  the first token as it is followed by the later tokens title-cased (\<^verbatim>\<open>str.title\<close>: a
  letter is uppercased at the start of the token and after a non-letter, lowercased after
  a letter); for tokens of lowercase letters this is capitalization. The result of an
  ASCII string has no underscore, so applying the function again returns it unchanged.
\<close>

theorem snake_to_camel_title_stable:
  "((\<forall>x \<in> set (t # ts). CHR ''_'' \<notin> set x \<and> ascii_string x) \<longrightarrow>
      snake_to_camel (join_with (CHR ''_'') (t # ts)) = t @ concat (map title ts) \<and>
      ((\<forall>x \<in> set ts. \<forall>c \<in> set x. is_lower c) \<longrightarrow>
         snake_to_camel (join_with (CHR ''_'') (t # ts)) = t @ concat (map capitalize ts))) \<and>
   (ascii_string s \<longrightarrow> snake_to_camel (snake_to_camel s) = snake_to_camel s)"
proof (intro conjI impI)
  assume "\<forall>x \<in> set (t # ts). CHR ''_'' \<notin> set x \<and> ascii_string x"
  then have t: "\<forall>x \<in> set (t # ts). CHR ''_'' \<notin> set x" by blast
  then show eq: "snake_to_camel (join_with (CHR ''_'') (t # ts)) = t @ concat (map title ts)"
    by (rule snake_to_camel_tokens)
  assume "\<forall>x \<in> set ts. \<forall>c \<in> set x. is_lower c"
  then have "map title ts = map capitalize ts"
    by (induction ts) (simp_all add: title_lower_capitalize)
  with eq show "snake_to_camel (join_with (CHR ''_'') (t # ts)) = t @ concat (map capitalize ts)"
    by simp
next
  show "snake_to_camel (snake_to_camel s) = snake_to_camel s"
    by (rule snake_to_camel_idem)
qed

theorem snake_to_camel_title_stable_witness:
  "join_with (CHR ''_'') [''block'', ''hash''] = ''block_hash'' \<and>
   ascii_string ''block_hash'' \<and>
   ''block'' @ concat (map capitalize [''hash'']) = ''blockHash'' \<and>
   snake_to_camel (join_with (CHR ''_'') [''block'', ''hash''])
     = ''block'' @ concat (map title [''hash'']) \<and>
   snake_to_camel (join_with (CHR ''_'') [''block'', ''hash''])
     = ''block'' @ concat (map capitalize [''hash'']) \<and>
   snake_to_camel (snake_to_camel ''block_hash'') = snake_to_camel ''block_hash''"
proof -
  have h1: "\<forall>x \<in> set [''block'', ''hash'']. CHR ''_'' \<notin> set x \<and> ascii_string x"
    by (simp add: ascii_string_def is_ascii_def)
  have h2: "\<forall>x \<in> set [''hash'']. \<forall>c \<in> set x. is_lower c" by (simp add: is_lower_def)
  have h3: "join_with (CHR ''_'') [''block'', ''hash''] = ''block_hash''" by simp
  have h4: "''block'' @ concat (map capitalize [''hash'']) = ''blockHash''" by code_simp
  have h5: "ascii_string ''block_hash''" by (simp add: ascii_string_def is_ascii_def)
  show ?thesis
    using h1 h2 h3 h4 h5
      snake_to_camel_title_stable [of "''block''" "[''hash'']" "''block_hash''"]
    by blast
qed

text \<open>
  C10 as the specification words it: "each subsequent token capitalized". The token
  \<open>b1c\<close> comes out as \<open>B1C\<close>, which neither reading of "capitalized" gives.
\<close>

theorem snake_to_camel_capitalized_counterexample:
  "snake_to_camel ''a_b1c'' = ''aB1C'' \<and>
   snake_to_camel ''a_b1c'' \<noteq> snake_to_camel_spec capitalize ''a_b1c'' \<and>
   snake_to_camel ''a_b1c'' \<noteq> snake_to_camel_spec upper_first ''a_b1c''"
  by code_simp

section \<open>Properties of the empty-schema resolution\<close>


lemma for_schemas_map:
  "(\<And>n s. (n, s) \<in> set ss \<Longrightarrow> f n s = Inr (g n s)) \<Longrightarrow>
   for_schemas f ss = Inr (map (\<lambda>kv. (fst kv, g (fst kv) (snd kv))) ss)"
  by (induction f ss rule: for_schemas.induct) auto

lemma for_schemas_Inr:
  "for_schemas f ss = Inr ss' \<Longrightarrow>
   length ss' = length ss \<and> map fst ss' = map fst ss \<and>
   (\<forall>i < length ss. f (fst (ss ! i)) (snd (ss ! i)) = Inr (snd (ss' ! i)))"
proof (induction f ss arbitrary: ss' rule: for_schemas.induct)
  case (1 f)
  then show ?case by simp
next
  case (2 f name schema rest)
  from "2.prems" obtain s' rest' where s': "f name schema = Inr s'"
    and r: "for_schemas f rest = Inr rest'" and ss': "ss' = (name, s') # rest'"
    by (auto split: sum.splits)
  from "2.IH"[OF s' r] show ?case using s' ss'
    by (auto simp: nth_Cons split: nat.splits)
qed

lemma map_of_dict_set: "map_of (dict_set kvs k v) = (map_of kvs)(k \<mapsto> v)"
  by (induction kvs) auto

lemma get_put_schemas:
  "get_schemas spec = Inr ss \<Longrightarrow> (ss = [] \<Longrightarrow> ss' = []) \<Longrightarrow>
   get_schemas (put_schemas spec ss') = Inr ss'"
  apply (cases spec)
  apply (simp_all add: get_schemas_def put_schemas_def)
  apply (auto simp: map_of_dict_set split: option.splits json.splits sum.splits)
  done

lemma each_schema_Inr:
  assumes "each_schema f spec = Inr spec'"
  shows "\<exists>ss ss'. get_schemas spec = Inr ss \<and> for_schemas f ss = Inr ss' \<and>
           get_schemas spec' = Inr ss'"
proof -
  from assms obtain ss ss' where g: "get_schemas spec = Inr ss"
    and f: "for_schemas f ss = Inr ss'" and s: "spec' = put_schemas spec ss'"
    by (auto simp: each_schema_def split: sum.splits)
  from for_schemas_Inr[OF f] have "ss = [] \<Longrightarrow> ss' = []" by simp
  with g s have "get_schemas spec' = Inr ss'" by (simp add: get_put_schemas)
  with g f show ?thesis by blast
qed


lemma fix_empty_schema_eq:
  "fix_empty_schema name (JObj d) = Inr (if is_empty_schema d then replacement name else JObj d)"
proof (cases "map_of empty_schema_fixes name")
  case None
  then show ?thesis by (simp add: replacement_def)
next
  case (Some fixed)
  then have "name \<in> fst ` set empty_schema_fixes"
    using map_of_eq_None_iff[of empty_schema_fixes name] by simp
  with Some show ?thesis by (simp add: replacement_def)
qed

lemma get_truthy_absent: "k \<notin> fst ` set d \<Longrightarrow> \<not> get_truthy d k"
  using map_of_eq_None_iff[of d k] by (simp add: get_truthy_def)

lemma lacks_imp_empty: "lacks_all_keywords d \<Longrightarrow> is_empty_schema d"
  by (simp add: lacks_all_keywords_def is_empty_schema_def get_truthy_absent)

lemma not_empty_imp_not_lacks: "\<not> is_empty_schema d \<Longrightarrow> \<not> lacks_all_keywords d"
  using lacks_imp_empty by blast

lemma table_entries_typed:
  "map_of empty_schema_fixes name = Some fixed \<Longrightarrow>
   \<exists>d. fixed = JObj d \<and> get_truthy d ''type''"
  by (auto simp: empty_schema_fixes_def get_truthy_def split: if_splits)

lemma replacement_nonempty: "\<exists>d. replacement name = JObj d \<and> \<not> is_empty_schema d"
proof (cases "map_of empty_schema_fixes name")
  case None
  then show ?thesis
    by (simp add: replacement_def default_fix_def is_empty_schema_def get_truthy_def)
next
  case (Some fixed)
  with table_entries_typed[OF Some] show ?thesis
    by (auto simp: replacement_def is_empty_schema_def)
qed

text \<open>
  C5. When every named schema is a dictionary, the empty-schema resolution returns a
  document with the same schema names; a schema with none of the keys properties, enum,
  anyOf, oneOf, allOf, type is replaced by the table's schema for its name, or by the
  string schema described "Auto-fixed empty schema for <name>" when the table has no
  entry; a schema that has a true value under one of the keys is kept; and every schema
  of the result has one of the keys with a true value.
\<close>

theorem fix_empty_schemas_resolves:
  assumes "get_schemas spec = Inr schemas"
    and "\<forall>kv \<in> set schemas. \<exists>d. snd kv = JObj d"
  shows "\<exists>spec' schemas'.
      fix_empty_schemas spec = Inr spec' \<and> get_schemas spec' = Inr schemas' \<and>
      map fst schemas' = map fst schemas \<and>
      (\<forall>i < length schemas. \<forall>d. snd (schemas ! i) = JObj d \<longrightarrow>
         (lacks_all_keywords d \<longrightarrow>
            snd (schemas' ! i) =
              (case map_of empty_schema_fixes (fst (schemas ! i)) of
                 Some fixed \<Rightarrow> fixed
               | None \<Rightarrow> JObj [(''type'', JStr ''string''),
                   (''description'',
                    JStr (''Auto-fixed empty schema for '' @ fst (schemas ! i)))])) \<and>
         (\<not> is_empty_schema d \<longrightarrow> snd (schemas' ! i) = JObj d)) \<and>
      (\<forall>kv \<in> set schemas'. \<exists>d. snd kv = JObj d \<and> \<not> is_empty_schema d \<and>
         \<not> lacks_all_keywords d)"
proof -
  define g where "g = (\<lambda>name v. case v of
      JObj d \<Rightarrow> (if is_empty_schema d then replacement name else JObj d) | _ \<Rightarrow> v)"
  define schemas' where "schemas' = map (\<lambda>kv. (fst kv, g (fst kv) (snd kv))) schemas"
  have "fix_empty_schema n s = Inr (g n s)" if "(n, s) \<in> set schemas" for n s
  proof -
    from that assms(2) obtain d where "s = JObj d" by force
    then show ?thesis by (simp add: g_def fix_empty_schema_eq del: fix_empty_schema.simps)
  qed
  then have loop: "for_schemas fix_empty_schema schemas = Inr schemas'"
    unfolding schemas'_def by (rule for_schemas_map)
  have len: "length schemas' = length schemas" by (simp add: schemas'_def)
  then have "schemas = [] \<Longrightarrow> schemas' = []" by simp
  with assms(1) have get': "get_schemas (put_schemas spec schemas') = Inr schemas'"
    by (rule get_put_schemas)
  have run: "fix_empty_schemas spec = Inr (put_schemas spec schemas')"
    using assms(1) loop by (simp add: fix_empty_schemas_def each_schema_def)
  have keys: "map fst schemas' = map fst schemas" by (simp add: schemas'_def o_def)
  have each: "(lacks_all_keywords d \<longrightarrow>
            snd (schemas' ! i) =
              (case map_of empty_schema_fixes (fst (schemas ! i)) of
                 Some fixed \<Rightarrow> fixed
               | None \<Rightarrow> JObj [(''type'', JStr ''string''),
                   (''description'',
                    JStr (''Auto-fixed empty schema for '' @ fst (schemas ! i)))])) \<and>
         (\<not> is_empty_schema d \<longrightarrow> snd (schemas' ! i) = JObj d)"
    if "i < length schemas" "snd (schemas ! i) = JObj d" for i d
    using that lacks_imp_empty[of d]
    by (auto simp: schemas'_def g_def replacement_def default_fix_def split: option.splits)
  have post: "\<exists>d. snd kv = JObj d \<and> \<not> is_empty_schema d \<and> \<not> lacks_all_keywords d"
    if "kv \<in> set schemas'" for kv
  proof -
    from that obtain n s where ns: "(n, s) \<in> set schemas" and kv: "kv = (n, g n s)"
      by (auto simp: schemas'_def)
    from ns assms(2) obtain d where d: "s = JObj d" by force
    show ?thesis
    proof (cases "is_empty_schema d")
      case True
      with replacement_nonempty[of n] kv d show ?thesis
        by (auto simp: g_def dest: not_empty_imp_not_lacks)
    next
      case False
      with kv d show ?thesis by (auto simp: g_def dest: not_empty_imp_not_lacks)
    qed
  qed
  from run get' keys each post show ?thesis by blast
qed

theorem fix_empty_schemas_resolves_witness:
  "\<exists>spec' schemas'.
     fix_empty_schemas
       (JObj [(''components'', JObj [(''schemas'',
          JObj [(''AccountId'', JObj []), (''Thing'', JObj [(''description'', JStr ''x'')]),
                (''Kept'', JObj [(''type'', JStr ''integer'')])])])]) = Inr spec' \<and>
     get_schemas spec' = Inr schemas' \<and>
     map fst schemas' = [''AccountId'', ''Thing'', ''Kept''] \<and>
     snd (schemas' ! 0) = JObj [(''type'', JStr ''string''),
        (''description'', JStr ''NEAR Account Identifier'')] \<and>
     snd (schemas' ! 2) = JObj [(''type'', JStr ''integer'')]"
proof -
  let ?ss = "[(''AccountId'', JObj []), (''Thing'', JObj [(''description'', JStr ''x'')]),
                (''Kept'', JObj [(''type'', JStr ''integer'')])]"
  let ?spec = "JObj [(''components'', JObj [(''schemas'', JObj ?ss)])]"
  have h1: "get_schemas ?spec = Inr ?ss" by (simp add: get_schemas_def)
  have h2: "\<forall>kv \<in> set ?ss. \<exists>d. snd kv = JObj d" by simp
  have l0: "lacks_all_keywords []" by (simp add: lacks_all_keywords_def)
  have l2: "\<not> is_empty_schema [(''type'', JStr ''integer'')]"
    by (simp add: is_empty_schema_def get_truthy_def)
  have t0: "map_of empty_schema_fixes ''AccountId'' = Some (JObj [(''type'', JStr ''string''),
        (''description'', JStr ''NEAR Account Identifier'')])"
    by (simp add: empty_schema_fixes_def)
  from fix_empty_schemas_resolves [OF h1 h2] obtain spec' schemas' where
    r: "fix_empty_schemas ?spec = Inr spec'" "get_schemas spec' = Inr schemas'"
       "map fst schemas' = map fst ?ss"
    and e: "\<forall>i < length ?ss. \<forall>d. snd (?ss ! i) = JObj d \<longrightarrow>
         (lacks_all_keywords d \<longrightarrow>
            snd (schemas' ! i) =
              (case map_of empty_schema_fixes (fst (?ss ! i)) of
                 Some fixed \<Rightarrow> fixed
               | None \<Rightarrow> JObj [(''type'', JStr ''string''),
                   (''description'',
                    JStr (''Auto-fixed empty schema for '' @ fst (?ss ! i)))])) \<and>
         (\<not> is_empty_schema d \<longrightarrow> snd (schemas' ! i) = JObj d)"
    by blast
  from e[rule_format, of 0 "[]"] l0 t0 have a: "snd (schemas' ! 0) = JObj [(''type'', JStr ''string''),
        (''description'', JStr ''NEAR Account Identifier'')]" by simp
  from e[rule_format, of 2 "[(''type'', JStr ''integer'')]"] l2
  have b: "snd (schemas' ! 2) = JObj [(''type'', JStr ''integer'')]" by simp
  from r a b show ?thesis by auto
qed

section \<open>Properties of the endpoint collapsing\<close>

lemma collect_methods_dicts:
  "\<forall>kv \<in> set ps. \<exists>d. snd kv = JObj d \<Longrightarrow>
   collect_methods ps acc = Inr (foldl (\<lambda>a e. dict_set a (fst e) (snd e)) acc (post_entries ps))"
proof (induction ps arbitrary: acc)
  case Nil
  then show ?case by simp
next
  case (Cons kv ps)
  obtain path v where kv: "kv = (path, v)" by (cases kv)
  with Cons.prems obtain d where d: "v = JObj d" by auto
  from Cons.prems have rest: "\<forall>kv \<in> set ps. \<exists>d. snd kv = JObj d" by simp
  show ?case
  proof (cases "map_of d ''post''")
    case None
    then have "''post'' \<notin> fst ` set d" using map_of_eq_None_iff[of d "''post''"] by simp
    with None kv d Cons.IH[OF rest] show ?thesis by simp
  next
    case (Some operation)
    then have "''post'' \<in> fst ` set d" using map_of_eq_None_iff[of d "''post''"] by auto
    with Some kv d Cons.IH[OF rest] show ?thesis by simp
  qed
qed

lemma map_of_foldl_dict_set:
  "map_of (foldl (\<lambda>a e. dict_set a (fst e) (snd e)) acc es) = map_of acc ++ map_of (rev es)"
proof (induction es arbitrary: acc)
  case Nil
  then show ?case by simp
next
  case (Cons e es)
  show ?case
    by (simp add: Cons.IH map_of_dict_set) (auto simp: map_add_def fun_eq_iff split: option.splits)
qed

lemma keys_dict_set: "fst ` set (dict_set kvs k v) = insert k (fst ` set kvs)"
  by (simp add: dom_map_of_conv_image_fst[symmetric] map_of_dict_set)

lemma keys_foldl_dict_set:
  "fst ` set (foldl (\<lambda>a e. dict_set a (fst e) (snd e)) acc es) = fst ` set acc \<union> fst ` set es"
  by (induction es arbitrary: acc) (auto simp: keys_dict_set)

lemma set_post_entries:
  "(k, operation) \<in> set (post_entries ps) \<longleftrightarrow>
   (\<exists>path item. (path, JObj item) \<in> set ps \<and> map_of item ''post'' = Some operation \<and>
      k = py_strip (CHR ''/'') path)"
proof (induction ps)
  case Nil
  show ?case by simp
next
  case (Cons kv rest)
  obtain path v where kv: "kv = (path, v)" by (cases kv)
  let ?R = "\<exists>path item. (path, JObj item) \<in> set rest \<and> map_of item ''post'' = Some operation \<and>
      k = py_strip (CHR ''/'') path"
  have split: "(\<exists>p item. (p, JObj item) \<in> set (kv # rest) \<and> map_of item ''post'' = Some operation \<and>
      k = py_strip (CHR ''/'') p) \<longleftrightarrow>
      ((\<exists>item. v = JObj item \<and> map_of item ''post'' = Some operation \<and>
          k = py_strip (CHR ''/'') path) \<or> ?R)"
    unfolding kv by (simp only: set_simps insert_iff prod.inject) blast
  have here: "(k, operation) \<in> set (post_entries (kv # rest)) \<longleftrightarrow>
      ((\<exists>item. v = JObj item \<and> map_of item ''post'' = Some operation \<and>
          k = py_strip (CHR ''/'') path) \<or> (k, operation) \<in> set (post_entries rest))"
  proof (cases v)
    case (JObj item)
    then show ?thesis unfolding kv by (cases "map_of item ''post''") auto
  qed (simp_all add: kv)
  show ?case unfolding split here Cons.IH ..
qed

lemma keys_post_entries:
  "fst ` set (post_entries ps) =
   {py_strip (CHR ''/'') path | path item operation.
      (path, JObj item) \<in> set ps \<and> map_of item ''post'' = Some operation}"
proof (intro set_eqI iffI)
  fix k assume "k \<in> fst ` set (post_entries ps)"
  then obtain operation where "(k, operation) \<in> set (post_entries ps)" by auto
  then obtain path item where "(path, JObj item) \<in> set ps"
    "map_of item ''post'' = Some operation" "k = py_strip (CHR ''/'') path"
    unfolding set_post_entries by blast
  then show "k \<in> {py_strip (CHR ''/'') path | path item operation.
      (path, JObj item) \<in> set ps \<and> map_of item ''post'' = Some operation}" by blast
next
  fix k assume "k \<in> {py_strip (CHR ''/'') path | path item operation.
      (path, JObj item) \<in> set ps \<and> map_of item ''post'' = Some operation}"
  then obtain path item operation where "(path, JObj item) \<in> set ps"
    "map_of item ''post'' = Some operation" "k = py_strip (CHR ''/'') path" by blast
  then have "(k, operation) \<in> set (post_entries ps)" unfolding set_post_entries by blast
  then show "k \<in> fst ` set (post_entries ps)" by (rule image_eqI[rotated]) simp
qed

lemma map_of_rev_distinct:
  assumes "distinct (map fst es)"
  shows "map_of (rev es) = map_of es"
proof -
  have "distinct (rev (map fst es))" using assms by (simp only: distinct_rev)
  then have "distinct (map fst (rev es))" by (simp only: rev_map)
  moreover have "set (rev es) = set es" by simp
  ultimately show ?thesis using assms map_of_inject_set by blast
qed

text \<open>
  C1 (as the code has it). For a document with a paths table whose entries are
  dictionaries, the collapsing step returns the document with the paths table replaced by
  the single entry \<open>/\<close> with the single operation \<open>post\<close>; the keys of its method table are
  the stripped names of the paths that have a \<open>post\<close> operation; the value under a key
  is the \<open>post\<close> descriptor of the last such path with that stripped name, so that with
  pairwise distinct stripped names every descriptor is there, unmodified.
\<close>

theorem collapse_paths_single_endpoint:
  assumes "map_of root ''paths'' = Some (JObj paths)"
    and "\<forall>kv \<in> set paths. \<exists>d. snd kv = JObj d"
  shows "\<exists>spec' all_methods.
      collapse_paths (JObj root) = Inr (JObj spec') \<and>
      map_of spec' ''paths'' = Some (JObj [(''/'', JObj [(''post'', jsonrpc_operation all_methods)])]) \<and>
      (\<forall>k. k \<noteq> ''paths'' \<longrightarrow> map_of spec' k = map_of root k) \<and>
      map_of (case jsonrpc_operation all_methods of JObj operation \<Rightarrow> operation) ''x-methods''
        = Some (JObj all_methods) \<and>
      fst ` set all_methods =
        {py_strip (CHR ''/'') path | path item operation.
           (path, JObj item) \<in> set paths \<and> map_of item ''post'' = Some operation} \<and>
      map_of all_methods = map_of (rev (post_entries paths)) \<and>
      (distinct (map fst (post_entries paths)) \<longrightarrow>
         (\<forall>path item operation. (path, JObj item) \<in> set paths \<longrightarrow>
            map_of item ''post'' = Some operation \<longrightarrow>
            map_of all_methods (py_strip (CHR ''/'') path) = Some operation))"
proof -
  define all_methods where
    "all_methods = foldl (\<lambda>a e. dict_set a (fst e) (snd e)) [] (post_entries paths)"
  define spec' where "spec' = dict_set root ''paths''
     (JObj [(''/'', JObj [(''post'', jsonrpc_operation all_methods)])])"
  have "''paths'' \<in> fst ` set root"
    using assms(1) map_of_eq_None_iff[of root "''paths''"] by auto
  then have run: "collapse_paths (JObj root) = Inr (JObj spec')"
    using assms(1) collect_methods_dicts[OF assms(2), of "[]"]
    by (simp add: collapse_paths_def all_methods_def spec'_def)
  have p: "map_of spec' ''paths'' = Some (JObj [(''/'', JObj [(''post'', jsonrpc_operation all_methods)])])"
    by (simp add: spec'_def map_of_dict_set)
  have o: "\<forall>k. k \<noteq> ''paths'' \<longrightarrow> map_of spec' k = map_of root k"
    by (simp add: spec'_def map_of_dict_set)
  have x: "map_of (case jsonrpc_operation all_methods of JObj operation \<Rightarrow> operation) ''x-methods''
        = Some (JObj all_methods)"
    by (simp add: jsonrpc_operation_def)
  have k: "fst ` set all_methods =
        {py_strip (CHR ''/'') path | path item operation.
           (path, JObj item) \<in> set paths \<and> map_of item ''post'' = Some operation}"
    by (simp add: all_methods_def keys_foldl_dict_set keys_post_entries)
  have m: "map_of all_methods = map_of (rev (post_entries paths))"
    by (simp add: all_methods_def map_of_foldl_dict_set)
  have d: "map_of all_methods (py_strip (CHR ''/'') path) = Some operation"
    if dist: "distinct (map fst (post_entries paths))"
      and "(path, JObj item) \<in> set paths" "map_of item ''post'' = Some operation"
    for path item operation
  proof -
    from that(2,3) have "(py_strip (CHR ''/'') path, operation) \<in> set (post_entries paths)"
      unfolding set_post_entries by blast
    with dist have "map_of (post_entries paths) (py_strip (CHR ''/'') path) = Some operation"
      by simp
    with m dist show ?thesis by (simp add: map_of_rev_distinct)
  qed
  from run p o x k m d show ?thesis by blast
qed


theorem collapse_paths_single_endpoint_witness:
  "\<exists>spec' all_methods.
      collapse_paths (JObj [(''openapi'', JStr ''3.0.0''),
         (''paths'', JObj [(''/status'', JObj [(''post'', JStr ''op1'')]),
                           (''/health'', JObj [(''get'', JNull)])])]) = Inr (JObj spec') \<and>
      map_of spec' ''paths''
        = Some (JObj [(''/'', JObj [(''post'', jsonrpc_operation all_methods)])]) \<and>
      map_of all_methods ''status'' = Some (JStr ''op1'') \<and>
      map_of all_methods ''health'' = None"
proof -
  let ?paths = "[(''/status'', JObj [(''post'', JStr ''op1'')]),
                 (''/health'', JObj [(''get'', JNull)])]"
  let ?root = "[(''openapi'', JStr ''3.0.0''), (''paths'', JObj ?paths)]"
  have h1: "map_of ?root ''paths'' = Some (JObj ?paths)" by simp
  have h2: "\<forall>kv \<in> set ?paths. \<exists>d. snd kv = JObj d" by simp
  have s: "py_strip (CHR ''/'') ''/status'' = ''status''" by (simp add: py_strip_def)
  have e: "post_entries ?paths = [(''status'', JStr ''op1'')]" by (simp add: s)
  from collapse_paths_single_endpoint [OF h1 h2] show ?thesis
  proof (elim exE conjE, goal_cases)
    case (1 spec' all_methods)
    from 1(6) e have m: "map_of all_methods = map_of [(''status'', JStr ''op1'')]" by simp
    have m1: "map_of all_methods ''status'' = Some (JStr ''op1'')" by (simp add: m)
    have m2: "map_of all_methods ''health'' = None" by (simp add: m)
    from 1(1) 1(2) m1 m2 show ?case by (intro exI conjI)
  qed
qed

text \<open>
  C1 as stated. A path without a \<open>post\<close> operation has no key in the method table, and
  of two paths with the same stripped name only the later descriptor is kept.
\<close>

theorem collapse_paths_key_set_counterexample:
  "collapse_paths (JObj [(''paths'', JObj [(''/status'', JObj [(''get'', JObj [])])])])
     = Inr (JObj [(''paths'', JObj [(''/'', JObj [(''post'', jsonrpc_operation [])])])]) \<and>
   fst ` set ([] :: dict) \<noteq> {py_strip (CHR ''/'') ''/status''} \<and>
   collapse_paths (JObj [(''paths'', JObj [(''/a'', JObj [(''post'', JInt 1)]),
                                          (''a/'', JObj [(''post'', JInt 2)])])])
     = Inr (JObj [(''paths'', JObj [(''/'', JObj [(''post'',
               jsonrpc_operation [(''a'', JInt 2)])])])]) \<and>
   map_of [(''a'', JInt 2)] (py_strip (CHR ''/'') ''/a'') \<noteq> Some (JInt 1)"
proof (intro conjI)
  show "collapse_paths (JObj [(''paths'', JObj [(''/status'', JObj [(''get'', JObj [])])])])
     = Inr (JObj [(''paths'', JObj [(''/'', JObj [(''post'', jsonrpc_operation [])])])])"
    by (simp add: collapse_paths_def)
  show "fst ` set ([] :: dict) \<noteq> {py_strip (CHR ''/'') ''/status''}"
    by simp
  show "collapse_paths (JObj [(''paths'', JObj [(''/a'', JObj [(''post'', JInt 1)]),
                                          (''a/'', JObj [(''post'', JInt 2)])])])
     = Inr (JObj [(''paths'', JObj [(''/'', JObj [(''post'',
               jsonrpc_operation [(''a'', JInt 2)])])])])"
    by (simp add: collapse_paths_def py_strip_def)
  show "map_of [(''a'', JInt 2)] (py_strip (CHR ''/'') ''/a'') \<noteq> Some (JInt 1)"
    by (simp add: py_strip_def)
qed

section \<open>Properties of the structural cleanup\<close>

lemma split_on_eval:
  "split_on c (x # xs) =
     (case split_on c xs of
        [] \<Rightarrow> (if x = c then [[]] else [[x]])
      | w # ws \<Rightarrow> (if x = c then [] # w # ws else (x # w) # ws))"
  by (cases "split_on c xs") (simp_all add: split_on_ne)

lemma in_keys_iff: "k \<in> fst ` set d \<longleftrightarrow> map_of d k \<noteq> None"
  using map_of_eq_None_iff[of d k] by simp

lemma promoted_ref: "promoted d = JObj d' \<Longrightarrow> map_of d' ''$ref'' = Some v \<Longrightarrow>
   d' = d"
  by (auto simp: promoted_def split: if_splits)

lemma fpp_no_ref:
  assumes "map_of d ''$ref'' = None"
  shows "fix_problematic_pattern names name (JObj d) = Inr (promoted d)"
proof -
  have nr: "''$ref'' \<notin> fst ` set d" using assms by (simp add: in_keys_iff)
  show ?thesis
  proof (cases "length d = 1 \<and> ''description'' \<in> fst ` set d")
    case True
    then obtain v where v: "map_of d ''description'' = Some v" by (auto simp: in_keys_iff)
    with True nr show ?thesis
      by (simp add: fix_problematic_pattern_def promoted_def)
  next
    case False
    with nr show ?thesis
      by (auto simp: fix_problematic_pattern_def promoted_def)
  qed
qed

lemma fpp_current:
  "(case (if length d = 1 then py_in ''description'' (JObj d) else Inr False) of
      Inl e \<Rightarrow> Inl e
    | Inr only_description \<Rightarrow>
        (case (if only_description then
                 (case py_getitem (JObj d) ''description'' of
                    Inl e \<Rightarrow> Inl e
                  | Inr description \<Rightarrow>
                      Inr (JObj [(''type'', JStr ''string''), (''description'', description)]))
               else Inr (JObj d)) of
           Inl e \<Rightarrow> Inl e
         | Inr current \<Rightarrow> f current)) = f (promoted d)"
proof (cases "length d = 1 \<and> ''description'' \<in> fst ` set d")
  case True
  then obtain v where v: "map_of d ''description'' = Some v" by (auto simp: in_keys_iff)
  with True show ?thesis by (simp add: promoted_def)
next
  case False
  then show ?thesis by (auto simp: promoted_def)
qed

lemma fpp_ref:
  assumes "map_of d ''$ref'' = Some (JStr r)"
  shows "fix_problematic_pattern names name (JObj d) =
     Inr (if starts_with r ''#/components/schemas/'' \<and> last (split_on (CHR ''/'') r) \<notin> set names
          then reference_to r else promoted d)"
proof -
  have r: "''$ref'' \<in> fst ` set d" using assms by (simp add: in_keys_iff)
  show ?thesis
    unfolding fix_problematic_pattern_def py_len.simps sum.case fpp_current
    using r assms by (simp add: reference_to_def Let_def)
qed


lemma reference_to_no_ref: "reference_to r = JObj d' \<Longrightarrow> map_of d' ''$ref'' = None"
  by (auto simp: reference_to_def)

text \<open>
  C6 (as the code has it). When every named schema is a dictionary whose \<open>$ref\<close>, if it
  has one, is a string, the structural cleanup returns a document with the same schema
  names in which a named schema whose own \<open>$ref\<close> starts with \<open>#/components/schemas/\<close> and
  names (by its last segment) no schema of the table has become the string schema
  described "Reference to <name>", and every named schema that still carries such a
  \<open>$ref\<close> names a schema of the table. Only the \<open>$ref\<close> key of a named schema itself is
  examined.
\<close>

theorem fix_problematic_patterns_references:
  assumes "get_schemas spec = Inr schemas"
    and "\<forall>kv \<in> set schemas. \<exists>d. snd kv = JObj d \<and>
           (\<forall>v. map_of d ''$ref'' = Some v \<longrightarrow> (\<exists>r. v = JStr r))"
  shows "\<exists>spec' schemas'.
      fix_problematic_patterns spec = Inr spec' \<and> get_schemas spec' = Inr schemas' \<and>
      map fst schemas' = map fst schemas \<and>
      (\<forall>i < length schemas. \<forall>d r. snd (schemas ! i) = JObj d \<longrightarrow>
         map_of d ''$ref'' = Some (JStr r) \<longrightarrow>
         starts_with r ''#/components/schemas/'' \<longrightarrow>
         last (split_on (CHR ''/'') r) \<notin> fst ` set schemas \<longrightarrow>
         snd (schemas' ! i) =
           JObj [(''type'', JStr ''string''),
                 (''description'', JStr (''Reference to '' @ last (split_on (CHR ''/'') r)))]) \<and>
      (\<forall>kv \<in> set schemas'. \<forall>d r. snd kv = JObj d \<longrightarrow>
         map_of d ''$ref'' = Some (JStr r) \<longrightarrow>
         starts_with r ''#/components/schemas/'' \<longrightarrow>
         last (split_on (CHR ''/'') r) \<in> fst ` set schemas')"
proof -
  let ?names = "map fst schemas"
  define dangling where "dangling = (\<lambda>r. starts_with r ''#/components/schemas/'' \<and>
      last (split_on (CHR ''/'') r) \<notin> set ?names)"
  define g where "g = (\<lambda>(name :: string) v. case v of
      JObj d \<Rightarrow> (case map_of d ''$ref'' of
          Some (JStr r) \<Rightarrow> if dangling r then reference_to r else promoted d
        | _ \<Rightarrow> promoted d)
    | _ \<Rightarrow> v)"
  define schemas' where "schemas' = map (\<lambda>kv. (fst kv, g (fst kv) (snd kv))) schemas"
  have step: "fix_problematic_pattern ?names n s = Inr (g n s)" if "(n, s) \<in> set schemas" for n s
  proof -
    from that assms(2) obtain d where d: "s = JObj d"
      and str: "\<forall>v. map_of d ''$ref'' = Some v \<longrightarrow> (\<exists>r. v = JStr r)" by force
    show ?thesis
    proof (cases "map_of d ''$ref''")
      case None
      then show ?thesis by (simp add: d g_def fpp_no_ref)
    next
      case (Some v)
      with str obtain r where "v = JStr r" by blast
      with Some show ?thesis by (simp add: d g_def fpp_ref dangling_def)
    qed
  qed
  then have loop: "for_schemas (fix_problematic_pattern ?names) schemas = Inr schemas'"
    unfolding schemas'_def by (rule for_schemas_map)
  have "schemas = [] \<Longrightarrow> schemas' = []" by (simp add: schemas'_def)
  with assms(1) have get': "get_schemas (put_schemas spec schemas') = Inr schemas'"
    by (rule get_put_schemas)
  have run: "fix_problematic_patterns spec = Inr (put_schemas spec schemas')"
    using assms(1) loop by (simp add: fix_problematic_patterns_def)
  have keys: "map fst schemas' = map fst schemas" by (simp add: schemas'_def o_def)
  have "set (map fst schemas') = set (map fst schemas)" by (simp only: keys)
  then have names: "fst ` set schemas' = set ?names" "fst ` set schemas = set ?names"
    by (simp_all only: set_map)
  have repl: "snd (schemas' ! i) =
           JObj [(''type'', JStr ''string''),
                 (''description'', JStr (''Reference to '' @ last (split_on (CHR ''/'') r)))]"
    if "i < length schemas" "snd (schemas ! i) = JObj d" "map_of d ''$ref'' = Some (JStr r)"
      "starts_with r ''#/components/schemas/''"
      "last (split_on (CHR ''/'') r) \<notin> fst ` set schemas" for i d r
    using that unfolding names
    by (simp add: schemas'_def g_def dangling_def reference_to_def)
  have post: "last (split_on (CHR ''/'') r) \<in> fst ` set schemas'"
    if kv: "kv \<in> set schemas'" and d': "snd kv = JObj d'"
      and r: "map_of d' ''$ref'' = Some (JStr r)"
      and pfx: "starts_with r ''#/components/schemas/''" for kv d' r
  proof -
    from kv obtain n s where ns: "(n, s) \<in> set schemas" and kv': "snd kv = g n s"
      by (auto simp: schemas'_def)
    from ns assms(2) obtain d where d: "s = JObj d" by force
    have notref: "g n s \<noteq> reference_to r'" for r'
      using reference_to_no_ref[of r' d'] d' r kv' by auto
    have "g n s = promoted d"
    proof (cases "map_of d ''$ref''")
      case None
      then show ?thesis by (simp add: g_def d)
    next
      case (Some v)
      show ?thesis
      proof (cases v)
        case (JStr r')
        with Some notref[of r'] show ?thesis by (auto simp: g_def d split: if_splits)
      qed (simp_all add: g_def d Some)
    qed
    with kv' d' have p: "promoted d = JObj d'" by simp
    from promoted_ref[OF p r] have dd: "d' = d" .
    with r have rd: "map_of d ''$ref'' = Some (JStr r)" by simp
    have "\<not> dangling r"
    proof
      assume "dangling r"
      with rd have "g n s = reference_to r" by (simp add: g_def d)
      with notref show False by blast
    qed
    with pfx show ?thesis unfolding names by (simp add: dangling_def)
  qed
  from run get' keys repl post show ?thesis by blast
qed

theorem fix_problematic_patterns_references_witness:
  "\<exists>spec' schemas'.
      fix_problematic_patterns (JObj [(''components'', JObj [(''schemas'',
         JObj [(''A'', JObj [(''$ref'', JStr ''#/components/schemas/Gone'')]),
               (''B'', JObj [(''$ref'', JStr ''#/components/schemas/A'')])])])]) = Inr spec' \<and>
      get_schemas spec' = Inr schemas' \<and>
      map fst schemas' = [''A'', ''B''] \<and>
      snd (schemas' ! 0) =
        JObj [(''type'', JStr ''string''), (''description'', JStr ''Reference to Gone'')]"
proof -
  let ?ss = "[(''A'', JObj [(''$ref'', JStr ''#/components/schemas/Gone'')]),
              (''B'', JObj [(''$ref'', JStr ''#/components/schemas/A'')])]"
  let ?spec = "JObj [(''components'', JObj [(''schemas'', JObj ?ss)])]"
  have h1: "get_schemas ?spec = Inr ?ss" by (simp add: get_schemas_def)
  have h2: "\<forall>kv \<in> set ?ss. \<exists>d. snd kv = JObj d \<and>
           (\<forall>v. map_of d ''$ref'' = Some v \<longrightarrow> (\<exists>r. v = JStr r))" by simp
  have l: "last (split_on (CHR ''/'') ''#/components/schemas/Gone'') = ''Gone''"
    by (simp add: split_on_eval del: split_on.simps(2))
  have p: "starts_with ''#/components/schemas/Gone'' ''#/components/schemas/''" by simp
  have n: "''Gone'' \<notin> fst ` set ?ss" by simp
  from fix_problematic_patterns_references [OF h1 h2] show ?thesis
  proof (elim exE conjE, goal_cases)
    case (1 spec' schemas')
    from 1(4)[rule_format, of 0 "[(''$ref'', JStr ''#/components/schemas/Gone'')]"
        "''#/components/schemas/Gone''"] p n
    have a: "snd (schemas' ! 0) =
        JObj [(''type'', JStr ''string''), (''description'', JStr ''Reference to Gone'')]"
      unfolding l by simp
    from 1(3) have k: "map fst schemas' = [''A'', ''B'']" by simp
    from 1(1) 1(2) k a show ?case by (intro exI conjI)
  qed
qed

text \<open>
  C6 as stated. A \<open>$ref\<close> inside a property of a named schema is not examined: the four
  passes return the document with the reference to the missing schema in place. The
  collapsing step writes its two fixed references whether or not the document has the
  schemas they name.
\<close>

theorem dangling_nested_reference_counterexample:
  "apply_all_fixes (JObj [(''components'', JObj [(''schemas'',
       JObj [(''A'', JObj [(''type'', JStr ''object''),
          (''properties'', JObj [(''x'',
             JObj [(''$ref'', JStr ''#/components/schemas/Missing'')])])])])])])
   = Inr (JObj [(''components'', JObj [(''schemas'',
       JObj [(''A'', JObj [(''type'', JStr ''object''),
          (''properties'', JObj [(''x'',
             JObj [(''$ref'', JStr ''#/components/schemas/Missing'')])])])])])]) \<and>
   lookup_path (JObj [(''components'', JObj [(''schemas'',
       JObj [(''A'', JObj [(''type'', JStr ''object''),
          (''properties'', JObj [(''x'',
             JObj [(''$ref'', JStr ''#/components/schemas/Missing'')])])])])])])
     [Key ''components'', Key ''schemas'', Key ''A'', Key ''properties'', Key ''x'', Key ''$ref'']
   = Some (JStr ''#/components/schemas/Missing'') \<and>
   ''Missing'' \<notin> fst ` set [(''A'', JObj [(''type'', JStr ''object''),
          (''properties'', JObj [(''x'',
             JObj [(''$ref'', JStr ''#/components/schemas/Missing'')])])])] \<and>
   (case collapse_paths (JObj [(''paths'', JObj [])]) of
      Inl e \<Rightarrow> False
    | Inr collapsed \<Rightarrow>
        lookup_path collapsed
          [Key ''paths'', Key ''/'', Key ''post'', Key ''requestBody'', Key ''content'',
           Key ''application/json'', Key ''schema'', Key ''$ref'']
          = Some (JStr ''#/components/schemas/JsonRpcRequest'') \<and>
        get_schemas collapsed = Inr [])"
proof (intro conjI)
  show "apply_all_fixes (JObj [(''components'', JObj [(''schemas'',
       JObj [(''A'', JObj [(''type'', JStr ''object''),
          (''properties'', JObj [(''x'',
             JObj [(''$ref'', JStr ''#/components/schemas/Missing'')])])])])])])
   = Inr (JObj [(''components'', JObj [(''schemas'',
       JObj [(''A'', JObj [(''type'', JStr ''object''),
          (''properties'', JObj [(''x'',
             JObj [(''$ref'', JStr ''#/components/schemas/Missing'')])])])])])])"
    by code_simp
  show "lookup_path (JObj [(''components'', JObj [(''schemas'',
       JObj [(''A'', JObj [(''type'', JStr ''object''),
          (''properties'', JObj [(''x'',
             JObj [(''$ref'', JStr ''#/components/schemas/Missing'')])])])])])])
     [Key ''components'', Key ''schemas'', Key ''A'', Key ''properties'', Key ''x'', Key ''$ref'']
   = Some (JStr ''#/components/schemas/Missing'')"
    by simp
  show "''Missing'' \<notin> fst ` set [(''A'', JObj [(''type'', JStr ''object''),
          (''properties'', JObj [(''x'',
             JObj [(''$ref'', JStr ''#/components/schemas/Missing'')])])])]"
    by simp
  show "case collapse_paths (JObj [(''paths'', JObj [])]) of
      Inl e \<Rightarrow> False
    | Inr collapsed \<Rightarrow>
        lookup_path collapsed
          [Key ''paths'', Key ''/'', Key ''post'', Key ''requestBody'', Key ''content'',
           Key ''application/json'', Key ''schema'', Key ''$ref'']
          = Some (JStr ''#/components/schemas/JsonRpcRequest'') \<and>
        get_schemas collapsed = Inr []"
    by (simp add: collapse_paths_def jsonrpc_operation_def get_schemas_def)
qed

section \<open>Properties of running the repair again\<close>

text \<open>Evaluating \<open>split_on\<close> with one recursive call for each character.\<close>

declare split_on.simps(1) [code]
declare split_on_eval [code]

lemma rpp_idem: "remove_pattern_props (remove_pattern_props d) = remove_pattern_props d"
  by (rule rpp_id) (rule rpp_no_key)

lemma dict_set_same: "map_of kvs k = Some v \<Longrightarrow> dict_set kvs k v = kvs"
  by (induction kvs) (auto split: if_splits)

lemma put_get_schemas: "get_schemas spec = Inr ss \<Longrightarrow> put_schemas spec ss = spec"
proof (cases spec)
  case (JObj root)
  assume g: "get_schemas spec = Inr ss"
  show ?thesis
  proof (cases "map_of root ''components''")
    case None
    with JObj show ?thesis by (simp add: put_schemas_def)
  next
    case (Some comps)
    show ?thesis
    proof (cases comps)
      case c: (JObj cs)
      show ?thesis
      proof (cases "map_of cs ''schemas''")
        case None
        with JObj Some c show ?thesis by (simp add: put_schemas_def)
      next
        case s: (Some sv)
        with g JObj Some c have "sv = JObj ss"
          by (cases sv) (simp_all add: get_schemas_def)
        with JObj Some c s show ?thesis by (simp add: put_schemas_def dict_set_same)
      qed
    qed (simp_all add: JObj Some put_schemas_def)
  qed
qed (simp_all add: put_schemas_def)

lemma for_schemas_fixed:
  assumes "\<And>n s. (n, s) \<in> set ss \<Longrightarrow> f n s = Inr s"
  shows "for_schemas f ss = Inr ss"
proof -
  have "for_schemas f ss = Inr (map (\<lambda>kv. (fst kv, snd kv)) ss)"
    using assms by (rule for_schemas_map)
  then show ?thesis by simp
qed

lemma for_schemas_idem:
  assumes run: "for_schemas f ss = Inr ss'"
    and idem: "\<And>n s s'. f n s = Inr s' \<Longrightarrow> f' n s' = Inr s'"
  shows "for_schemas f' ss' = Inr ss'"
proof (rule for_schemas_fixed)
  fix n s' assume "(n, s') \<in> set ss'"
  then obtain i where i: "i < length ss'" "ss' ! i = (n, s')" by (auto simp: in_set_conv_nth)
  from for_schemas_Inr[OF run] have len: "length ss' = length ss"
    and keys: "map fst ss' = map fst ss"
    and each: "\<forall>i < length ss. f (fst (ss ! i)) (snd (ss ! i)) = Inr (snd (ss' ! i))" by auto
  from keys i len have "fst (ss ! i) = n"
    by (metis fst_conv nth_map)
  with each i len have "f n (snd (ss ! i)) = Inr s'" by auto
  then show "f' n s' = Inr s'" by (rule idem)
qed

lemma fix_empty_schema_idem:
  assumes "fix_empty_schema n s = Inr s'"
  shows "fix_empty_schema n s' = Inr s'"
proof (cases s)
  case (JObj d)
  show ?thesis
  proof (cases "is_empty_schema d")
    case True
    with assms JObj have s': "s' = replacement n"
      by (simp add: fix_empty_schema_eq del: fix_empty_schema.simps)
    from replacement_nonempty[of n] obtain d' where "replacement n = JObj d'"
      "\<not> is_empty_schema d'" by blast
    with s' show ?thesis by (simp add: fix_empty_schema_eq del: fix_empty_schema.simps)
  next
    case False
    with assms JObj have "s' = JObj d"
      by (simp add: fix_empty_schema_eq del: fix_empty_schema.simps)
    with False show ?thesis by (simp add: fix_empty_schema_eq del: fix_empty_schema.simps)
  qed
qed (use assms in simp_all)

lemma fix_empty_schemas_idem:
  assumes "fix_empty_schemas spec = Inr spec'"
  shows "fix_empty_schemas spec' = Inr spec'"
proof -
  from each_schema_Inr[OF assms[unfolded fix_empty_schemas_def]] obtain ss ss' where
    run: "for_schemas fix_empty_schema ss = Inr ss'" and g': "get_schemas spec' = Inr ss'"
    by blast
  have "for_schemas fix_empty_schema ss' = Inr ss'"
    using run fix_empty_schema_idem by (rule for_schemas_idem)
  with g' show ?thesis
    by (simp add: fix_empty_schemas_def each_schema_def put_get_schemas)
qed


lemma fpp_two_keys:
  "fix_problematic_pattern names n (JObj [(''type'', a), (''description'', b)])
     = Inr (JObj [(''type'', a), (''description'', b)])"
  by (simp add: fpp_no_ref promoted_def)

lemma fpp_bad_ref:
  assumes "map_of d ''$ref'' = Some v" and "\<forall>r. v \<noteq> JStr r"
  shows "fix_problematic_pattern names n (JObj d) = Inl AttributeError"
proof -
  have k: "''$ref'' \<in> fst ` set d" using assms(1) by (simp add: in_keys_iff)
  show ?thesis
    unfolding fix_problematic_pattern_def py_len.simps sum.case fpp_current
    using k assms by (cases v) simp_all
qed

lemma fpp_result:
  assumes "fix_problematic_pattern names n s = Inr s'"
  shows "s' = s \<or> (\<exists>a b. s' = JObj [(''type'', a), (''description'', b)])"
proof (cases s)
  case (JObj d)
  have p: "promoted d = JObj d \<or> (\<exists>a b. promoted d = JObj [(''type'', a), (''description'', b)])"
    by (simp add: promoted_def)
  show ?thesis
  proof (cases "map_of d ''$ref''")
    case None
    with assms JObj have "s' = promoted d" by (simp add: fpp_no_ref)
    with p JObj show ?thesis by auto
  next
    case (Some v)
    then have k: "''$ref'' \<in> fst ` set d" by (simp add: in_keys_iff)
    show ?thesis
    proof (cases v)
      case (JStr r)
      with assms JObj Some have "s' = reference_to r \<or> s' = promoted d"
        by (auto simp: fpp_ref split: if_splits)
      with p JObj show ?thesis by (auto simp: reference_to_def)
    qed (use assms JObj Some in \<open>simp_all add: fpp_bad_ref\<close>)
  qed
next
  case (JArr xs)
  with assms show ?thesis
    by (auto simp: fix_problematic_pattern_def split: if_splits bool.splits)
next
  case (JStr x)
  with assms show ?thesis
    by (auto simp: fix_problematic_pattern_def split: if_splits bool.splits)
qed (use assms in \<open>simp_all add: fix_problematic_pattern_def\<close>)

lemma fpp_idem:
  assumes "fix_problematic_pattern names n s = Inr s'"
  shows "fix_problematic_pattern names n s' = Inr s'"
  using fpp_result[OF assms] assms by (auto simp: fpp_two_keys)

lemma fix_problematic_patterns_idem:
  assumes "fix_problematic_patterns spec = Inr spec'"
  shows "fix_problematic_patterns spec' = Inr spec'"
proof -
  from assms obtain ss ss' where g: "get_schemas spec = Inr ss"
    and run: "for_schemas (fix_problematic_pattern (map fst ss)) ss = Inr ss'"
    and s: "spec' = put_schemas spec ss'"
    by (auto simp: fix_problematic_patterns_def split: sum.splits)
  from for_schemas_Inr[OF run] have keys: "map fst ss' = map fst ss"
    and e: "ss = [] \<Longrightarrow> ss' = []" by auto
  from g e s have g': "get_schemas spec' = Inr ss'" by (simp add: get_put_schemas)
  have "for_schemas (fix_problematic_pattern (map fst ss)) ss' = Inr ss'"
    using run fpp_idem by (rule for_schemas_idem)
  with g' keys show ?thesis
    by (simp add: fix_problematic_patterns_def put_get_schemas)
qed

lemma jsonrpc_operation_size: "size (JObj ms) < size (jsonrpc_operation ms)"
  by (simp add: jsonrpc_operation_def)

lemma jsonrpc_operation_nested: "jsonrpc_operation [([], jsonrpc_operation ms)] \<noteq> jsonrpc_operation ms"
proof
  assume "jsonrpc_operation [([], jsonrpc_operation ms)] = jsonrpc_operation ms"
  then have "ms = [([], jsonrpc_operation ms)]" by (simp add: jsonrpc_operation_def)
  then have "size (JObj ms) = size (JObj [([], jsonrpc_operation ms)])" by simp
  with jsonrpc_operation_size[of ms] show False by simp
qed

lemma collapse_paths_again:
  "collapse_paths (JObj (dict_set root ''paths''
       (JObj [(''/'', JObj [(''post'', jsonrpc_operation ms)])])))
   = Inr (JObj (dict_set root ''paths''
       (JObj [(''/'', JObj [(''post'',
          jsonrpc_operation [([], jsonrpc_operation ms)])])])))"
proof -
  let ?P = "JObj [(''/'', JObj [(''post'', jsonrpc_operation ms)])]"
  let ?r = "dict_set root ''paths'' ?P"
  have k: "''paths'' \<in> fst ` set ?r" by (simp add: keys_dict_set)
  have m: "map_of ?r ''paths'' = Some ?P" by (simp add: map_of_dict_set)
  have s: "py_strip (CHR ''/'') ''/'' = []" by (simp add: py_strip_def)
  have c: "collect_methods [(''/'', JObj [(''post'', jsonrpc_operation ms)])] []
      = Inr [([], jsonrpc_operation ms)]" by (simp add: s)
  have d: "dict_set ?r ''paths'' v = dict_set root ''paths'' v" for v
    by (induction root) auto
  show ?thesis
    unfolding collapse_paths_def py_in.simps py_getitem.simps m option.case sum.case
      json.case c
    using k by (simp add: d)
qed


lemma collapse_paths_shape:
  assumes "collapse_paths (JObj root) = Inr spec'" and "''paths'' \<in> fst ` set root"
  shows "\<exists>ms. spec' = JObj (dict_set root ''paths''
       (JObj [(''/'', JObj [(''post'', jsonrpc_operation ms)])]))"
proof -
  from assms(2) obtain pv where pv: "map_of root ''paths'' = Some pv"
    by (auto simp: in_keys_iff)
  show ?thesis
  proof (cases pv)
    case (JObj ps)
    show ?thesis
    proof (cases "collect_methods ps []")
      case (Inl e)
      with assms pv JObj show ?thesis by (simp add: collapse_paths_def)
    next
      case (Inr ms)
      with assms pv JObj show ?thesis by (auto simp: collapse_paths_def)
    qed
  qed (use assms pv in \<open>simp_all add: collapse_paths_def\<close>)
qed

text \<open>
  C4 (as the code has it). Of the five passes, the pattern-constraint removal, the
  empty-schema resolution and the structural cleanup return their own output unchanged
  when run on it again. The collapsing step does so only for a document without a paths
  table; run on a collapsed document it returns a different document, whose single \<open>/\<close>
  entry has a method table with the one key \<open>''\<close> (the stripped name of \<open>/\<close>) holding the
  operation the first run had written.
\<close>

theorem repair_passes_rerun:
  "remove_pattern_properties (remove_pattern_properties spec) = remove_pattern_properties spec \<and>
   (fix_empty_schemas spec = Inr spec' \<longrightarrow> fix_empty_schemas spec' = Inr spec') \<and>
   (fix_problematic_patterns spec = Inr spec' \<longrightarrow> fix_problematic_patterns spec' = Inr spec') \<and>
   (collapse_paths (JObj root) = Inr spec' \<longrightarrow> ''paths'' \<notin> fst ` set root \<longrightarrow>
      spec' = JObj root \<and> collapse_paths spec' = Inr spec') \<and>
   (collapse_paths (JObj root) = Inr spec' \<longrightarrow> ''paths'' \<in> fst ` set root \<longrightarrow>
      (\<exists>ms spec''.
         lookup_path spec' [Key ''paths'']
           = Some (JObj [(''/'', JObj [(''post'', jsonrpc_operation ms)])]) \<and>
         collapse_paths spec' = Inr spec'' \<and> spec'' \<noteq> spec' \<and>
         lookup_path spec'' [Key ''paths'']
           = Some (JObj [(''/'', JObj [(''post'',
                jsonrpc_operation [([], jsonrpc_operation ms)])])])))"
proof (intro conjI impI)
  show "remove_pattern_properties (remove_pattern_properties spec) = remove_pattern_properties spec"
    by (simp add: remove_pattern_properties_def rpp_idem)
next
  assume "fix_empty_schemas spec = Inr spec'"
  then show "fix_empty_schemas spec' = Inr spec'" by (rule fix_empty_schemas_idem)
next
  assume "fix_problematic_patterns spec = Inr spec'"
  then show "fix_problematic_patterns spec' = Inr spec'" by (rule fix_problematic_patterns_idem)
next
  assume a: "collapse_paths (JObj root) = Inr spec'" "''paths'' \<notin> fst ` set root"
  then show "spec' = JObj root" by (simp add: collapse_paths_def)
  with a show "collapse_paths spec' = Inr spec'" by simp
next
  assume a: "collapse_paths (JObj root) = Inr spec'" "''paths'' \<in> fst ` set root"
  from collapse_paths_shape[OF a] obtain ms where
    s: "spec' = JObj (dict_set root ''paths''
       (JObj [(''/'', JObj [(''post'', jsonrpc_operation ms)])]))" by blast
  let ?again = "JObj (dict_set root ''paths''
       (JObj [(''/'', JObj [(''post'', jsonrpc_operation [([], jsonrpc_operation ms)])])]))"
  have l1: "lookup_path spec' [Key ''paths'']
           = Some (JObj [(''/'', JObj [(''post'', jsonrpc_operation ms)])])"
    by (simp add: s map_of_dict_set)
  have r: "collapse_paths spec' = Inr ?again" unfolding s by (rule collapse_paths_again)
  have l2: "lookup_path ?again [Key ''paths'']
           = Some (JObj [(''/'', JObj [(''post'',
                jsonrpc_operation [([], jsonrpc_operation ms)])])])"
    by (simp add: map_of_dict_set)
  have ne: "?again \<noteq> spec'"
  proof
    assume "?again = spec'"
    with l1 l2 have "jsonrpc_operation [([], jsonrpc_operation ms)] = jsonrpc_operation ms"
      by simp
    with jsonrpc_operation_nested show False by blast
  qed
  from l1 r ne l2 show "\<exists>ms spec''.
         lookup_path spec' [Key ''paths'']
           = Some (JObj [(''/'', JObj [(''post'', jsonrpc_operation ms)])]) \<and>
         collapse_paths spec' = Inr spec'' \<and> spec'' \<noteq> spec' \<and>
         lookup_path spec'' [Key ''paths'']
           = Some (JObj [(''/'', JObj [(''post'',
                jsonrpc_operation [([], jsonrpc_operation ms)])])])" by blast
qed

theorem repair_passes_rerun_witness:
  "fix_empty_schemas (JObj [(''components'', JObj [(''schemas'',
       JObj [(''A'', JObj [(''type'', JStr ''string''),
          (''description'', JStr ''Auto-fixed empty schema for A'')])])])])
     = Inr (JObj [(''components'', JObj [(''schemas'',
       JObj [(''A'', JObj [(''type'', JStr ''string''),
          (''description'', JStr ''Auto-fixed empty schema for A'')])])])]) \<and>
   fix_problematic_patterns (JObj [(''components'', JObj [(''schemas'',
       JObj [(''A'', JObj [(''type'', JStr ''string''),
          (''description'', JStr ''Reference to Gone'')])])])])
     = Inr (JObj [(''components'', JObj [(''schemas'',
       JObj [(''A'', JObj [(''type'', JStr ''string''),
          (''description'', JStr ''Reference to Gone'')])])])]) \<and>
   collapse_paths (JObj [(''openapi'', JStr ''3.0.0'')]) = Inr (JObj [(''openapi'', JStr ''3.0.0'')]) \<and>
   (\<exists>ms spec''.
      lookup_path (JObj [(''paths'', JObj [(''/'', JObj [(''post'', jsonrpc_operation [])])])])
          [Key ''paths'']
        = Some (JObj [(''/'', JObj [(''post'', jsonrpc_operation ms)])]) \<and>
      collapse_paths (JObj [(''paths'', JObj [(''/'', JObj [(''post'', jsonrpc_operation [])])])])
        = Inr spec'' \<and>
      spec'' \<noteq> JObj [(''paths'', JObj [(''/'', JObj [(''post'', jsonrpc_operation [])])])] \<and>
      lookup_path spec'' [Key ''paths'']
        = Some (JObj [(''/'', JObj [(''post'',
             jsonrpc_operation [([], jsonrpc_operation ms)])])]))"
proof -
  let ?e = "JObj [(''components'', JObj [(''schemas'', JObj [(''A'', JObj [])])])]"
  let ?e' = "JObj [(''components'', JObj [(''schemas'',
       JObj [(''A'', JObj [(''type'', JStr ''string''),
          (''description'', JStr ''Auto-fixed empty schema for A'')])])])]"
  let ?p = "JObj [(''components'', JObj [(''schemas'',
       JObj [(''A'', JObj [(''$ref'', JStr ''#/components/schemas/Gone'')])])])]"
  let ?p' = "JObj [(''components'', JObj [(''schemas'',
       JObj [(''A'', JObj [(''type'', JStr ''string''),
          (''description'', JStr ''Reference to Gone'')])])])]"
  let ?n = "[(''openapi'', JStr ''3.0.0'')]"
  let ?c = "[(''paths'', JObj [])]"
  let ?c' = "JObj [(''paths'', JObj [(''/'', JObj [(''post'', jsonrpc_operation [])])])]"
  have h1: "fix_empty_schemas ?e = Inr ?e'" by code_simp
  have h2: "fix_problematic_patterns ?p = Inr ?p'" by code_simp
  have h3: "collapse_paths (JObj ?n) = Inr (JObj ?n)" by (simp add: collapse_paths_def)
  have h4: "''paths'' \<notin> fst ` set ?n" by simp
  have h5: "collapse_paths (JObj ?c) = Inr ?c'" by (simp add: collapse_paths_def)
  have h6: "''paths'' \<in> fst ` set ?c" by simp
  note t1 = repair_passes_rerun [of ?e ?e' ?n, THEN conjunct2, THEN conjunct1, rule_format, OF h1]
  note t2 = repair_passes_rerun [of ?p ?p' ?n, THEN conjunct2, THEN conjunct2, THEN conjunct1,
      rule_format, OF h2]
  note t3 = repair_passes_rerun [of ?e "JObj ?n" ?n, THEN conjunct2, THEN conjunct2,
      THEN conjunct2, THEN conjunct1, rule_format, OF h3 h4, THEN conjunct2]
  note t4 = repair_passes_rerun [of ?e ?c' ?c, THEN conjunct2, THEN conjunct2,
      THEN conjunct2, THEN conjunct2, rule_format, OF h5 h6]
  from t1 t2 t3 t4 show ?thesis by (intro conjI)
qed

text \<open>
  C4 as stated. The five passes run on \<^verbatim>\<open>{"paths": {}}\<close> and again on the result give a
  different document the second time, and so does the collapsing step alone. The four
  passes of \<^verbatim>\<open>main\<close> are not stable either: an \<open>anyOf\<close> resolved to a bare \<open>$ref\<close> is taken
  for an empty schema by the next run.
\<close>

theorem schema_repair_rerun_counterexample:
  "(case schema_repair (JObj [(''paths'', JObj [])]) of
      Inl e \<Rightarrow> False
    | Inr once \<Rightarrow> schema_repair once \<noteq> Inr once \<and> collapse_paths once \<noteq> Inr once) \<and>
   (case apply_all_fixes (JObj [(''components'', JObj [(''schemas'',
        JObj [(''A'', JObj [(''anyOf'', JArr [JObj [(''$ref'', JStr ''#/components/schemas/B'')],
                                               JObj [(''type'', JStr ''null'')]])]),
              (''B'', JObj [(''type'', JStr ''string'')])])])]) of
      Inl e \<Rightarrow> False
    | Inr once \<Rightarrow> apply_all_fixes once \<noteq> Inr once)"
proof (intro conjI)
  show "case schema_repair (JObj [(''paths'', JObj [])]) of
      Inl e \<Rightarrow> False
    | Inr once \<Rightarrow> schema_repair once \<noteq> Inr once \<and> collapse_paths once \<noteq> Inr once"
    by code_simp
  show "case apply_all_fixes (JObj [(''components'', JObj [(''schemas'',
        JObj [(''A'', JObj [(''anyOf'', JArr [JObj [(''$ref'', JStr ''#/components/schemas/B'')],
                                               JObj [(''type'', JStr ''null'')]])]),
              (''B'', JObj [(''type'', JStr ''string'')])])])]) of
      Inl e \<Rightarrow> False
    | Inr once \<Rightarrow> apply_all_fixes once \<noteq> Inr once"
    by code_simp
qed

section \<open>Properties of the union resolution\<close>

lemma dict_set_ne: "dict_set kvs k v \<noteq> []"
  by (cases kvs) (auto split: if_splits)

lemma rpc_properties_empty:
  "rpc_properties items acc = Inr props \<Longrightarrow>
   (props = [] \<longleftrightarrow> acc = [] \<and>
      (\<forall>item \<in> set items. py_in ''$ref'' item = Inr False \<and> py_in ''type'' item = Inr False))"
proof (induction items arbitrary: acc)
  case Nil
  then show ?case by simp
next
  case (Cons item items)
  show ?case
  proof (cases "py_in ''$ref'' item")
    case (Inl e)
    with Cons.prems show ?thesis by simp
  next
    case r: (Inr b)
    show ?thesis
    proof (cases b)
      case True
      with Cons.prems r obtain ref where
        "rpc_properties items (dict_set acc (py_lower (last (split_on (CHR ''/'') ref))) item)
           = Inr props"
        by (auto simp: Let_def split: sum.splits json.splits if_splits)
      from Cons.IH[OF this] have "props \<noteq> []" by (simp add: dict_set_ne)
      with r True show ?thesis by simp
    next
      case False
      show ?thesis
      proof (cases "py_in ''type'' item")
        case (Inl e)
        with Cons.prems r False show ?thesis by simp
      next
        case t: (Inr b')
        show ?thesis
        proof (cases b')
          case True
          with Cons.prems r False t obtain key where
            "rpc_properties items (dict_set acc key item) = Inr props"
            by (auto split: sum.splits json.splits)
          from Cons.IH[OF this] have "props \<noteq> []" by (simp add: dict_set_ne)
          with t True show ?thesis by simp
        next
          case f: False
          with Cons.prems r False t have "rpc_properties items acc = Inr props" by simp
          from Cons.IH[OF this] r False t f show ?thesis by simp
        qed
      qed
    qed
  qed
qed

lemma py_len_iter: "py_len a = Inr n \<Longrightarrow> \<exists>items. py_iter a = Inr items \<and> length items = n"
  by (cases a) auto

lemma fix_anyof_schema_no_anyof:
  assumes "fix_anyof_schema name old = Inr new" and "\<not> has_keyword ''anyOf'' old"
  shows "new = old"
proof (cases old)
  case (JObj d)
  with assms(2) have "''anyOf'' \<notin> fst ` set d"
    by (simp add: has_keyword_def keyword_def in_keys_iff)
  with assms(1) JObj show ?thesis by (simp add: fix_anyof_schema_def)
next
  case (JArr xs)
  with assms(1) show ?thesis by (auto simp: fix_anyof_schema_def split: bool.splits)
next
  case (JStr x)
  with assms(1) show ?thesis by (auto simp: fix_anyof_schema_def split: bool.splits)
qed (use assms(1) in \<open>simp_all add: fix_anyof_schema_def\<close>)

lemma fix_anyof_schema_dict:
  assumes k: "map_of d ''anyOf'' = Some a"
  shows "fix_anyof_schema name (JObj d) =
     (if name = ''BlockId'' then
        Inr (block_id_schema (case map_of d ''description'' of None \<Rightarrow> JStr [] | Some v \<Rightarrow> v))
      else if contains ''Rpc'' name \<and> contains ''Request'' name then
        (case py_iter a of
           Inl e \<Rightarrow> Inl e
         | Inr items \<Rightarrow>
             (case rpc_properties items [] of
                Inl e \<Rightarrow> Inl e
              | Inr properties \<Rightarrow>
                  if properties \<noteq> [] then
                    Inr (JObj [(''type'', JStr ''object''),
                      (''description'',
                       case map_of d ''description'' of None \<Rightarrow> JStr [] | Some v \<Rightarrow> v),
                      (''properties'', JObj properties)])
                  else Inr (JObj d)))
      else
        (case py_len a of
           Inl e \<Rightarrow> Inl e
         | Inr n \<Rightarrow>
             if n > 0 then
               (case py_iter a of
                  Inl e \<Rightarrow> Inl e
                | Inr items \<Rightarrow>
                    (case first_alternative items of
                       Some item \<Rightarrow> Inr item
                     | None \<Rightarrow> Inr (JObj d)))
             else Inr (JObj d)))"
proof -
  have i: "py_in ''anyOf'' (JObj d) = Inr True" using k by (simp add: in_keys_iff)
  have g: "py_getitem (JObj d) ''anyOf'' = Inr a" using k by simp
  have e: "py_get (JObj d) ''description'' (JStr []) =
      Inr (case map_of d ''description'' of None \<Rightarrow> JStr [] | Some v \<Rightarrow> v)"
    by (simp split: option.splits)
  show ?thesis
    unfolding fix_anyof_schema_def i g e sum.case bool.case ..
qed


lemma fix_anyof_schema_outcome:
  assumes run: "fix_anyof_schema name old = Inr new"
  shows "(\<not> has_keyword ''anyOf'' old \<longrightarrow> new = old) \<and>
    (\<forall>a. keyword ''anyOf'' old = Some a \<longrightarrow>
       (name = ''BlockId'' \<longrightarrow>
          \<not> has_keyword ''anyOf'' new \<and> \<not> has_keyword ''oneOf'' new) \<and>
       (name \<noteq> ''BlockId'' \<longrightarrow> contains ''Rpc'' name \<and> contains ''Request'' name \<longrightarrow>
          (\<exists>items. py_iter a = Inr items \<and>
             (if \<forall>item \<in> set items.
                   py_in ''$ref'' item = Inr False \<and> py_in ''type'' item = Inr False
              then new = old
              else \<not> has_keyword ''anyOf'' new \<and> \<not> has_keyword ''oneOf'' new))) \<and>
       (name \<noteq> ''BlockId'' \<longrightarrow> \<not> (contains ''Rpc'' name \<and> contains ''Request'' name) \<longrightarrow>
          (\<exists>items. py_iter a = Inr items \<and>
             new = (case first_alternative items of Some item \<Rightarrow> item | None \<Rightarrow> old))))"
proof (intro conjI allI impI)
  assume "\<not> has_keyword ''anyOf'' old"
  with run show "new = old" by (rule fix_anyof_schema_no_anyof)
next
  fix a assume a: "keyword ''anyOf'' old = Some a" and n: "name = ''BlockId''"
  then obtain d where d: "old = JObj d" "map_of d ''anyOf'' = Some a"
    by (cases old) (simp_all add: keyword_def)
  with run n have "new = block_id_schema
      (case map_of d ''description'' of None \<Rightarrow> JStr [] | Some v \<Rightarrow> v)"
    by (simp add: fix_anyof_schema_dict)
  then show "\<not> has_keyword ''anyOf'' new" "\<not> has_keyword ''oneOf'' new"
    by (simp_all add: block_id_schema_def has_keyword_def keyword_def)
next
  fix a assume a: "keyword ''anyOf'' old = Some a" and n: "name \<noteq> ''BlockId''"
    and rpc: "contains ''Rpc'' name \<and> contains ''Request'' name"
  then obtain d where d: "old = JObj d" "map_of d ''anyOf'' = Some a"
    by (cases old) (simp_all add: keyword_def)
  from run d n rpc obtain items props where it: "py_iter a = Inr items"
    and pr: "rpc_properties items [] = Inr props"
    and new: "new = (if props \<noteq> [] then JObj [(''type'', JStr ''object''),
          (''description'', case map_of d ''description'' of None \<Rightarrow> JStr [] | Some v \<Rightarrow> v),
          (''properties'', JObj props)] else JObj d)"
    by (auto simp: fix_anyof_schema_dict split: sum.splits if_splits)
  from rpc_properties_empty[OF pr]
  have e: "props = [] \<longleftrightarrow> (\<forall>item \<in> set items.
      py_in ''$ref'' item = Inr False \<and> py_in ''type'' item = Inr False)" by simp
  have "if \<forall>item \<in> set items.
                   py_in ''$ref'' item = Inr False \<and> py_in ''type'' item = Inr False
              then new = old
              else \<not> has_keyword ''anyOf'' new \<and> \<not> has_keyword ''oneOf'' new"
  proof (cases "props = []")
    case True
    with e new d show ?thesis by simp
  next
    case False
    with e have "\<not> (\<forall>item \<in> set items.
      py_in ''$ref'' item = Inr False \<and> py_in ''type'' item = Inr False)" by simp
    moreover from False new have "\<not> has_keyword ''anyOf'' new \<and> \<not> has_keyword ''oneOf'' new"
      by (simp add: has_keyword_def keyword_def)
    ultimately show ?thesis by (metis (full_types))
  qed
  with it show "\<exists>items. py_iter a = Inr items \<and>
             (if \<forall>item \<in> set items.
                   py_in ''$ref'' item = Inr False \<and> py_in ''type'' item = Inr False
              then new = old
              else \<not> has_keyword ''anyOf'' new \<and> \<not> has_keyword ''oneOf'' new)" by blast
next
  fix a assume a: "keyword ''anyOf'' old = Some a" and n: "name \<noteq> ''BlockId''"
    and rpc: "\<not> (contains ''Rpc'' name \<and> contains ''Request'' name)"
  then obtain d where d: "old = JObj d" "map_of d ''anyOf'' = Some a"
    by (cases old) (simp_all add: keyword_def)
  from run d n rpc obtain m where len: "py_len a = Inr m"
    by (auto simp: fix_anyof_schema_dict split: sum.splits)
  from py_len_iter[OF len] obtain items where it: "py_iter a = Inr items"
    and l: "length items = m" by blast
  have "new = (case first_alternative items of Some item \<Rightarrow> item | None \<Rightarrow> old)"
  proof (cases "m > 0")
    case True
    with run d n rpc len it show ?thesis
      by (auto simp: fix_anyof_schema_dict split: option.splits)
  next
    case False
    with l have "items = []" by simp
    with run d n rpc len False show ?thesis
      by (auto simp: fix_anyof_schema_dict)
  qed
  with it show "\<exists>items. py_iter a = Inr items \<and>
             new = (case first_alternative items of Some item \<Rightarrow> item | None \<Rightarrow> old)"
    by blast
qed


lemma rpc_properties_total:
  "list_all plain_alternative items \<Longrightarrow> \<exists>props. rpc_properties items acc = Inr props"
proof (induction items arbitrary: acc)
  case Nil
  then show ?case by simp
next
  case (Cons item items)
  from Cons.prems have pi: "plain_alternative item"
    and rest: "list_all plain_alternative items" by simp_all
  from pi obtain d where d: "item = JObj d"
    by (cases item) (simp_all add: plain_alternative_def)
  from pi d have r: "case map_of d ''$ref'' of None \<Rightarrow> True
      | Some (JStr ref) \<Rightarrow> ascii_string (last (split_on (CHR ''/'') ref)) | Some _ \<Rightarrow> False"
    and t: "case map_of d ''title'' of None \<Rightarrow> True | Some (JStr t) \<Rightarrow> True | Some _ \<Rightarrow> False"
    by (simp_all add: plain_alternative_def)
  show ?case
  proof (cases "map_of d ''$ref''")
    case (Some v)
    with r obtain ref where v: "v = JStr ref"
      and a: "ascii_string (last (split_on (CHR ''/'') ref))"
      by (cases v) simp_all
    from Some have k: "''$ref'' \<in> fst ` set d" by (simp add: in_keys_iff)
    from Cons.IH[OF rest] obtain props where
      "rpc_properties items (dict_set acc (py_lower (last (split_on (CHR ''/'') ref))) item)
         = Inr props" by blast
    with d Some v a k show ?thesis by (simp add: Let_def)
  next
    case None
    then have k: "''$ref'' \<notin> fst ` set d" by (simp add: in_keys_iff)
    show ?thesis
    proof (cases "''type'' \<in> fst ` set d")
      case False
      with d k Cons.IH[OF rest, of acc] show ?thesis by simp
    next
      case True
      show ?thesis
      proof (cases "map_of d ''title''")
        case n: None
        from Cons.IH[OF rest] obtain props where
          "rpc_properties items (dict_set acc ''value'' item) = Inr props" by blast
        with d k True n show ?thesis by simp
      next
        case s: (Some v)
        with t obtain key where v: "v = JStr key" by (cases v) simp_all
        from Cons.IH[OF rest] obtain props where
          "rpc_properties items (dict_set acc key item) = Inr props" by blast
        with d k True s v show ?thesis by simp
      qed
    qed
  qed
qed

lemma fix_anyof_schema_total:
  assumes "plain_union_schema s"
  shows "\<exists>s'. fix_anyof_schema name s = Inr s'"
proof -
  from assms obtain d where d: "s = JObj d" by (cases s) (simp_all add: plain_union_schema_def)
  show ?thesis
  proof (cases "map_of d ''anyOf''")
    case None
    then have "''anyOf'' \<notin> fst ` set d" by (simp add: in_keys_iff)
    with d show ?thesis by (simp add: fix_anyof_schema_def)
  next
    case (Some a)
    with assms d obtain items where a: "a = JArr items"
      and p: "list_all plain_alternative items"
      by (cases a) (simp_all add: plain_union_schema_def)
    from rpc_properties_total[OF p, of "[]"] obtain props where
      r: "rpc_properties items [] = Inr props" by blast
    show ?thesis
      unfolding d fix_anyof_schema_dict[OF Some] a
      using r by (simp split: option.splits)
  qed
qed

lemma for_schemas_total:
  "(\<And>n s. (n, s) \<in> set ss \<Longrightarrow> \<exists>s'. f n s = Inr s') \<Longrightarrow> \<exists>ss'. for_schemas f ss = Inr ss'"
proof (induction ss)
  case Nil
  then show ?case by simp
next
  case (Cons kv ss)
  obtain n s where kv: "kv = (n, s)" by (cases kv)
  from Cons.prems[of n s] kv obtain s' where s': "f n s = Inr s'" by auto
  from Cons.IH Cons.prems obtain ss' where "for_schemas f ss = Inr ss'" by auto
  with kv s' show ?case by simp
qed

lemma fix_anyof_schemas_total:
  assumes "get_schemas spec = Inr schemas" and "list_all (\<lambda>kv. plain_union_schema (snd kv)) schemas"
  shows "\<exists>spec'. fix_anyof_schemas spec = Inr spec'"
proof -
  have "\<exists>s'. fix_anyof_schema n s = Inr s'" if "(n, s) \<in> set schemas" for n s
  proof -
    from that assms(2) have "plain_union_schema s" by (auto simp: list_all_iff)
    then show ?thesis by (rule fix_anyof_schema_total)
  qed
  then obtain ss' where "for_schemas fix_anyof_schema schemas = Inr ss'"
    using for_schemas_total[of schemas fix_anyof_schema] by blast
  with assms(1) show ?thesis by (simp add: fix_anyof_schemas_def each_schema_def)
qed

lemma fix_anyof_schemas_outcome:
  assumes "fix_anyof_schemas spec = Inr spec'"
  shows "\<exists>schemas schemas'.
    get_schemas spec = Inr schemas \<and> get_schemas spec' = Inr schemas' \<and>
    map fst schemas' = map fst schemas \<and>
    (\<forall>i < length schemas.
       (\<not> has_keyword ''anyOf'' (snd (schemas ! i)) \<longrightarrow> snd (schemas' ! i) = snd (schemas ! i)) \<and>
       (\<forall>a. keyword ''anyOf'' (snd (schemas ! i)) = Some a \<longrightarrow>
          (fst (schemas ! i) = ''BlockId'' \<longrightarrow>
             \<not> has_keyword ''anyOf'' (snd (schemas' ! i)) \<and>
             \<not> has_keyword ''oneOf'' (snd (schemas' ! i))) \<and>
          (fst (schemas ! i) \<noteq> ''BlockId'' \<longrightarrow>
           contains ''Rpc'' (fst (schemas ! i)) \<and> contains ''Request'' (fst (schemas ! i)) \<longrightarrow>
             (\<exists>items. py_iter a = Inr items \<and>
                (if \<forall>item \<in> set items.
                      py_in ''$ref'' item = Inr False \<and> py_in ''type'' item = Inr False
                 then snd (schemas' ! i) = snd (schemas ! i)
                 else \<not> has_keyword ''anyOf'' (snd (schemas' ! i)) \<and>
                      \<not> has_keyword ''oneOf'' (snd (schemas' ! i))))) \<and>
          (fst (schemas ! i) \<noteq> ''BlockId'' \<longrightarrow>
           \<not> (contains ''Rpc'' (fst (schemas ! i)) \<and> contains ''Request'' (fst (schemas ! i))) \<longrightarrow>
             (\<exists>items. py_iter a = Inr items \<and>
                snd (schemas' ! i) =
                  (case first_alternative items of
                     Some item \<Rightarrow> item
                   | None \<Rightarrow> snd (schemas ! i))))))"
proof -
  from each_schema_Inr[OF assms[unfolded fix_anyof_schemas_def]] obtain ss ss' where
    g: "get_schemas spec = Inr ss" and run: "for_schemas fix_anyof_schema ss = Inr ss'"
    and g': "get_schemas spec' = Inr ss'" by blast
  from for_schemas_Inr[OF run] have keys: "map fst ss' = map fst ss"
    and each: "\<forall>i < length ss. fix_anyof_schema (fst (ss ! i)) (snd (ss ! i)) = Inr (snd (ss' ! i))"
    by auto
  have "\<forall>i < length ss.
       (\<not> has_keyword ''anyOf'' (snd (ss ! i)) \<longrightarrow> snd (ss' ! i) = snd (ss ! i)) \<and>
       (\<forall>a. keyword ''anyOf'' (snd (ss ! i)) = Some a \<longrightarrow>
          (fst (ss ! i) = ''BlockId'' \<longrightarrow>
             \<not> has_keyword ''anyOf'' (snd (ss' ! i)) \<and>
             \<not> has_keyword ''oneOf'' (snd (ss' ! i))) \<and>
          (fst (ss ! i) \<noteq> ''BlockId'' \<longrightarrow>
           contains ''Rpc'' (fst (ss ! i)) \<and> contains ''Request'' (fst (ss ! i)) \<longrightarrow>
             (\<exists>items. py_iter a = Inr items \<and>
                (if \<forall>item \<in> set items.
                      py_in ''$ref'' item = Inr False \<and> py_in ''type'' item = Inr False
                 then snd (ss' ! i) = snd (ss ! i)
                 else \<not> has_keyword ''anyOf'' (snd (ss' ! i)) \<and>
                      \<not> has_keyword ''oneOf'' (snd (ss' ! i))))) \<and>
          (fst (ss ! i) \<noteq> ''BlockId'' \<longrightarrow>
           \<not> (contains ''Rpc'' (fst (ss ! i)) \<and> contains ''Request'' (fst (ss ! i))) \<longrightarrow>
             (\<exists>items. py_iter a = Inr items \<and>
                snd (ss' ! i) =
                  (case first_alternative items of
                     Some item \<Rightarrow> item
                   | None \<Rightarrow> snd (ss ! i)))))"
  proof (intro allI impI)
    fix i assume "i < length ss"
    with each have "fix_anyof_schema (fst (ss ! i)) (snd (ss ! i)) = Inr (snd (ss' ! i))"
      by blast
    then show "(\<not> has_keyword ''anyOf'' (snd (ss ! i)) \<longrightarrow> snd (ss' ! i) = snd (ss ! i)) \<and>
       (\<forall>a. keyword ''anyOf'' (snd (ss ! i)) = Some a \<longrightarrow>
          (fst (ss ! i) = ''BlockId'' \<longrightarrow>
             \<not> has_keyword ''anyOf'' (snd (ss' ! i)) \<and>
             \<not> has_keyword ''oneOf'' (snd (ss' ! i))) \<and>
          (fst (ss ! i) \<noteq> ''BlockId'' \<longrightarrow>
           contains ''Rpc'' (fst (ss ! i)) \<and> contains ''Request'' (fst (ss ! i)) \<longrightarrow>
             (\<exists>items. py_iter a = Inr items \<and>
                (if \<forall>item \<in> set items.
                      py_in ''$ref'' item = Inr False \<and> py_in ''type'' item = Inr False
                 then snd (ss' ! i) = snd (ss ! i)
                 else \<not> has_keyword ''anyOf'' (snd (ss' ! i)) \<and>
                      \<not> has_keyword ''oneOf'' (snd (ss' ! i))))) \<and>
          (fst (ss ! i) \<noteq> ''BlockId'' \<longrightarrow>
           \<not> (contains ''Rpc'' (fst (ss ! i)) \<and> contains ''Request'' (fst (ss ! i))) \<longrightarrow>
             (\<exists>items. py_iter a = Inr items \<and>
                snd (ss' ! i) =
                  (case first_alternative items of
                     Some item \<Rightarrow> item
                   | None \<Rightarrow> snd (ss ! i)))))"
      by (rule fix_anyof_schema_outcome)
  qed
  with g g' keys show ?thesis by (intro exI conjI)
qed

text \<open>
  C2 (as the code has it). The union resolution returns when every named schema is a
  dictionary whose \<open>anyOf\<close>, if any, is a list of dictionaries with string references and
  titles. When it returns, the schema names are the same and, for each named schema:
  without an \<open>anyOf\<close> key it is unchanged, so an \<open>oneOf\<close> stays; with \<open>anyOf\<close> and the name
  \<open>BlockId\<close> the result has neither \<open>anyOf\<close> nor \<open>oneOf\<close>; with \<open>anyOf\<close> and a name containing
  \<open>Rpc\<close> and \<open>Request\<close> the result has neither keyword when some alternative has \<open>$ref\<close> or
  \<open>type\<close>, and is the schema unchanged when none has; with \<open>anyOf\<close> and any other name the
  result is the first alternative that is true and is not \<^verbatim>\<open>{'type': 'null'}\<close>, whatever
  keywords it has, and the schema unchanged when there is no such alternative.
\<close>

theorem fix_anyof_schemas_resolution:
  "(get_schemas spec = Inr named \<longrightarrow> list_all (\<lambda>kv. plain_union_schema (snd kv)) named \<longrightarrow>
      (\<exists>result. fix_anyof_schemas spec = Inr result)) \<and>
   (fix_anyof_schemas spec = Inr spec' \<longrightarrow>
      (\<exists>schemas schemas'.
    get_schemas spec = Inr schemas \<and> get_schemas spec' = Inr schemas' \<and>
    map fst schemas' = map fst schemas \<and>
    (\<forall>i < length schemas.
       (\<not> has_keyword ''anyOf'' (snd (schemas ! i)) \<longrightarrow> snd (schemas' ! i) = snd (schemas ! i)) \<and>
       (\<forall>a. keyword ''anyOf'' (snd (schemas ! i)) = Some a \<longrightarrow>
          (fst (schemas ! i) = ''BlockId'' \<longrightarrow>
             \<not> has_keyword ''anyOf'' (snd (schemas' ! i)) \<and>
             \<not> has_keyword ''oneOf'' (snd (schemas' ! i))) \<and>
          (fst (schemas ! i) \<noteq> ''BlockId'' \<longrightarrow>
           contains ''Rpc'' (fst (schemas ! i)) \<and> contains ''Request'' (fst (schemas ! i)) \<longrightarrow>
             (\<exists>items. py_iter a = Inr items \<and>
                (if \<forall>item \<in> set items.
                      py_in ''$ref'' item = Inr False \<and> py_in ''type'' item = Inr False
                 then snd (schemas' ! i) = snd (schemas ! i)
                 else \<not> has_keyword ''anyOf'' (snd (schemas' ! i)) \<and>
                      \<not> has_keyword ''oneOf'' (snd (schemas' ! i))))) \<and>
          (fst (schemas ! i) \<noteq> ''BlockId'' \<longrightarrow>
           \<not> (contains ''Rpc'' (fst (schemas ! i)) \<and> contains ''Request'' (fst (schemas ! i))) \<longrightarrow>
             (\<exists>items. py_iter a = Inr items \<and>
                snd (schemas' ! i) =
                  (case first_alternative items of
                     Some item \<Rightarrow> item
                   | None \<Rightarrow> snd (schemas ! i))))))))"
proof (intro conjI impI)
  assume "get_schemas spec = Inr named" "list_all (\<lambda>kv. plain_union_schema (snd kv)) named"
  then show "\<exists>result. fix_anyof_schemas spec = Inr result" by (rule fix_anyof_schemas_total)
next
  assume "fix_anyof_schemas spec = Inr spec'"
  then show "\<exists>schemas schemas'.
    get_schemas spec = Inr schemas \<and> get_schemas spec' = Inr schemas' \<and>
    map fst schemas' = map fst schemas \<and>
    (\<forall>i < length schemas.
       (\<not> has_keyword ''anyOf'' (snd (schemas ! i)) \<longrightarrow> snd (schemas' ! i) = snd (schemas ! i)) \<and>
       (\<forall>a. keyword ''anyOf'' (snd (schemas ! i)) = Some a \<longrightarrow>
          (fst (schemas ! i) = ''BlockId'' \<longrightarrow>
             \<not> has_keyword ''anyOf'' (snd (schemas' ! i)) \<and>
             \<not> has_keyword ''oneOf'' (snd (schemas' ! i))) \<and>
          (fst (schemas ! i) \<noteq> ''BlockId'' \<longrightarrow>
           contains ''Rpc'' (fst (schemas ! i)) \<and> contains ''Request'' (fst (schemas ! i)) \<longrightarrow>
             (\<exists>items. py_iter a = Inr items \<and>
                (if \<forall>item \<in> set items.
                      py_in ''$ref'' item = Inr False \<and> py_in ''type'' item = Inr False
                 then snd (schemas' ! i) = snd (schemas ! i)
                 else \<not> has_keyword ''anyOf'' (snd (schemas' ! i)) \<and>
                      \<not> has_keyword ''oneOf'' (snd (schemas' ! i))))) \<and>
          (fst (schemas ! i) \<noteq> ''BlockId'' \<longrightarrow>
           \<not> (contains ''Rpc'' (fst (schemas ! i)) \<and> contains ''Request'' (fst (schemas ! i))) \<longrightarrow>
             (\<exists>items. py_iter a = Inr items \<and>
                snd (schemas' ! i) =
                  (case first_alternative items of
                     Some item \<Rightarrow> item
                   | None \<Rightarrow> snd (schemas ! i))))))"
    by (rule fix_anyof_schemas_outcome)
qed

theorem fix_anyof_schemas_resolution_witness:
  "(\<exists>result. fix_anyof_schemas (JObj [(''components'', JObj [(''schemas'',
       JObj [(''BlockId'', JObj [(''anyOf'',
                JArr [JObj [(''type'', JStr ''string'')], JObj [(''type'', JStr ''integer'')]])]),
             (''Other'', JObj [(''anyOf'',
                JArr [JObj [(''type'', JStr ''null'')], JObj [(''type'', JStr ''string'')]])])])])])
       = Inr result) \<and>
   (\<exists>schemas schemas'.
     get_schemas (JObj [(''components'', JObj [(''schemas'',
       JObj [(''BlockId'', JObj [(''anyOf'',
                JArr [JObj [(''type'', JStr ''string'')], JObj [(''type'', JStr ''integer'')]])]),
             (''Other'', JObj [(''anyOf'',
                JArr [JObj [(''type'', JStr ''null'')], JObj [(''type'', JStr ''string'')]])])])])])
       = Inr schemas \<and>
     get_schemas (JObj [(''components'', JObj [(''schemas'',
       JObj [(''BlockId'', block_id_schema (JStr [])),
             (''Other'', JObj [(''type'', JStr ''string'')])])])]) = Inr schemas' \<and>
     map fst schemas' = map fst schemas \<and>
     \<not> has_keyword ''anyOf'' (snd (schemas' ! 0)) \<and>
     \<not> has_keyword ''oneOf'' (snd (schemas' ! 0)))"
proof -
  let ?a = "JArr [JObj [(''type'', JStr ''string'')], JObj [(''type'', JStr ''integer'')]]"
  let ?ss = "[(''BlockId'', JObj [(''anyOf'', ?a)]),
             (''Other'', JObj [(''anyOf'',
                JArr [JObj [(''type'', JStr ''null'')], JObj [(''type'', JStr ''string'')]])])]"
  let ?w = "JObj [(''components'', JObj [(''schemas'', JObj ?ss)])]"
  let ?w' = "JObj [(''components'', JObj [(''schemas'',
       JObj [(''BlockId'', block_id_schema (JStr [])),
             (''Other'', JObj [(''type'', JStr ''string'')])])])]"
  have h: "fix_anyof_schemas ?w = Inr ?w'" by code_simp
  have g: "get_schemas ?w = Inr ?ss" by (simp add: get_schemas_def)
  have k: "keyword ''anyOf'' (snd (?ss ! 0)) = Some ?a" by (simp add: keyword_def)
  have l: "0 < length ?ss" by simp
  have n: "fst (?ss ! 0) = ''BlockId''" by simp
  have p: "list_all (\<lambda>kv. plain_union_schema (snd kv)) ?ss"
    by (simp add: plain_union_schema_def plain_alternative_def)
  note total = fix_anyof_schemas_resolution [of ?w ?ss ?w', THEN conjunct1, rule_format, OF g p]
  from fix_anyof_schemas_resolution [of ?w ?ss ?w', THEN conjunct2, rule_format, OF h]
  have "\<exists>schemas schemas'.
     get_schemas ?w = Inr schemas \<and> get_schemas ?w' = Inr schemas' \<and>
     map fst schemas' = map fst schemas \<and>
     \<not> has_keyword ''anyOf'' (snd (schemas' ! 0)) \<and>
     \<not> has_keyword ''oneOf'' (snd (schemas' ! 0))"
  proof (elim exE conjE, goal_cases)
    case (1 schemas schemas')
    from 1(1) g have s: "schemas = ?ss" by simp
    note x = 1(4)[unfolded s, rule_format, OF l, THEN conjunct2, rule_format, OF k,
        THEN conjunct1, rule_format, OF n]
    from 1(1) 1(2) 1(3) x show ?case by blast
  qed
  with total show ?thesis by (rule conjI)
qed

text \<open>
  C2 as stated. The pass, and the four passes together, return this document as it is:
  schema \<open>A\<close> keeps its \<open>oneOf\<close>, which no pass looks at, and schema \<open>C\<close> keeps its \<open>anyOf\<close>,
  whose only alternative is \<^verbatim>\<open>{'type': 'null'}\<close>.
\<close>

theorem fix_anyof_schemas_retains_counterexample:
  "fix_anyof_schemas (JObj [(''components'', JObj [(''schemas'',
       JObj [(''A'', JObj [(''oneOf'', JArr [JObj [(''type'', JStr ''string'')]])]),
             (''C'', JObj [(''anyOf'', JArr [JObj [(''type'', JStr ''null'')]])])])])])
   = Inr (JObj [(''components'', JObj [(''schemas'',
       JObj [(''A'', JObj [(''oneOf'', JArr [JObj [(''type'', JStr ''string'')]])]),
             (''C'', JObj [(''anyOf'', JArr [JObj [(''type'', JStr ''null'')]])])])])]) \<and>
   apply_all_fixes (JObj [(''components'', JObj [(''schemas'',
       JObj [(''A'', JObj [(''oneOf'', JArr [JObj [(''type'', JStr ''string'')]])]),
             (''C'', JObj [(''anyOf'', JArr [JObj [(''type'', JStr ''null'')]])])])])])
   = Inr (JObj [(''components'', JObj [(''schemas'',
       JObj [(''A'', JObj [(''oneOf'', JArr [JObj [(''type'', JStr ''string'')]])]),
             (''C'', JObj [(''anyOf'', JArr [JObj [(''type'', JStr ''null'')]])])])])]) \<and>
   has_keyword ''oneOf'' (JObj [(''oneOf'', JArr [JObj [(''type'', JStr ''string'')]])]) \<and>
   has_keyword ''anyOf'' (JObj [(''anyOf'', JArr [JObj [(''type'', JStr ''null'')]])])"
proof (intro conjI)
  show "fix_anyof_schemas (JObj [(''components'', JObj [(''schemas'',
       JObj [(''A'', JObj [(''oneOf'', JArr [JObj [(''type'', JStr ''string'')]])]),
             (''C'', JObj [(''anyOf'', JArr [JObj [(''type'', JStr ''null'')]])])])])])
   = Inr (JObj [(''components'', JObj [(''schemas'',
       JObj [(''A'', JObj [(''oneOf'', JArr [JObj [(''type'', JStr ''string'')]])]),
             (''C'', JObj [(''anyOf'', JArr [JObj [(''type'', JStr ''null'')]])])])])])"
    by code_simp
  show "apply_all_fixes (JObj [(''components'', JObj [(''schemas'',
       JObj [(''A'', JObj [(''oneOf'', JArr [JObj [(''type'', JStr ''string'')]])]),
             (''C'', JObj [(''anyOf'', JArr [JObj [(''type'', JStr ''null'')]])])])])])
   = Inr (JObj [(''components'', JObj [(''schemas'',
       JObj [(''A'', JObj [(''oneOf'', JArr [JObj [(''type'', JStr ''string'')]])]),
             (''C'', JObj [(''anyOf'', JArr [JObj [(''type'', JStr ''null'')]])])])])])"
    by code_simp
  show "has_keyword ''oneOf'' (JObj [(''oneOf'', JArr [JObj [(''type'', JStr ''string'')]])])"
    by (simp add: has_keyword_def keyword_def)
  show "has_keyword ''anyOf'' (JObj [(''anyOf'', JArr [JObj [(''type'', JStr ''null'')]])])"
    by (simp add: has_keyword_def keyword_def)
qed

section \<open>The rewrite passes on particular files\<close>

text \<open>
  C3 says that a second run of the six rewrites on the result of the first changes
  nothing. On the file \<^verbatim>\<open>data class Foo(val x: Int)\<close> the first run inserts the marker
  \<^verbatim>\<open>@Serializable\<close>, after the import pass has already looked for it; the second run finds
  the marker and no import, and adds the import. The second run changes the file.
\<close>

theorem rewrite_file_second_run_adds_import:
  "rewrite_file (''data class Foo(val x: Int)'') =
     ''@Serializable\<newline>data class Foo(val x: Int)'' \<and>
   rewrite_file (rewrite_file (''data class Foo(val x: Int)'')) =
     ''import kotlinx.serialization.Serializable\<newline>@Serializable\<newline>data class Foo(val x: Int)'' \<and>
   rewrite_file (rewrite_file (''data class Foo(val x: Int)'')) \<noteq>
     rewrite_file (''data class Foo(val x: Int)'')"
proof (intro conjI)
  show "rewrite_file (''data class Foo(val x: Int)'') =
     ''@Serializable\<newline>data class Foo(val x: Int)''"
    by code_simp
  show "rewrite_file (rewrite_file (''data class Foo(val x: Int)'')) =
     ''import kotlinx.serialization.Serializable\<newline>@Serializable\<newline>data class Foo(val x: Int)''"
    by code_simp
  show "rewrite_file (rewrite_file (''data class Foo(val x: Int)'')) \<noteq>
     rewrite_file (''data class Foo(val x: Int)'')"
    by code_simp
qed

text \<open>
  C7 says that every snake_case field without an annotation is renamed to camelCase and
  annotated with its original name. The two fields the specification names are. A
  field whose snake_case name has a digit, \<^verbatim>\<open>val sha256_hash: String\<close>, is left as it is:
  the pattern of the pass has lowercase letters only.
\<close>

theorem rewrite_file_snake_case_fields:
  "rewrite_file (''val account_id: Optional<String>'') =
     ''@SerialName('' @ [dquote] @ ''account_id'' @ [dquote] @ '')\<newline>val accountId: String?'' \<and>
   rewrite_file (''val block_hash: String'') =
     ''@SerialName('' @ [dquote] @ ''block_hash'' @ [dquote] @ '')\<newline>val blockHash: String'' \<and>
   rewrite_file (''val sha256_hash: String'') =
     ''val sha256_hash: String''"
proof (intro conjI)
  show "rewrite_file (''val account_id: Optional<String>'') =
     ''@SerialName('' @ [dquote] @ ''account_id'' @ [dquote] @ '')\<newline>val accountId: String?''"
    by code_simp
  show "rewrite_file (''val block_hash: String'') =
     ''@SerialName('' @ [dquote] @ ''block_hash'' @ [dquote] @ '')\<newline>val blockHash: String''"
    by code_simp
  show "rewrite_file (''val sha256_hash: String'') =
     ''val sha256_hash: String''"
    by code_simp
qed

text \<open>
  C8 says that every enum value without an annotation receives one whose literal is the
  name of the value, lowercased, with hyphens for underscores. The value
  \<^verbatim>\<open>ACCOUNT_DOES_NOT_EXIST\<close> receives the literal the specification names.
  For a value with a constructor argument, \<^verbatim>\<open>OLD_ONE("x")\<close>, the literal is made from the
  whole entry, not from the name of the value, and the parameter list of the
  enumeration is dropped.
\<close>

theorem rewrite_file_enum_values:
  "rewrite_file (''enum class E { ACCOUNT_DOES_NOT_EXIST }'') =
     ''@Serializable\<newline>enum class E {\<newline>    @SerialName('' @ [dquote] @ ''account-does-not-exist'' @ [dquote] @ '')\<newline>    ACCOUNT_DOES_NOT_EXIST\<newline>}'' \<and>
   rewrite_file (''enum class Kind(val v: String) {OLD_ONE('' @ [dquote] @ ''x'' @ [dquote] @ '')}'') =
     ''@Serializable\<newline>enum class Kind {\<newline>    @SerialName('' @ [dquote] @ ''old-one('' @ [dquote] @ ''x'' @ [dquote] @ '')'' @ [dquote] @ '')\<newline>    OLD_ONE('' @ [dquote] @ ''x'' @ [dquote] @ '')\<newline>}''"
proof (intro conjI)
  show "rewrite_file (''enum class E { ACCOUNT_DOES_NOT_EXIST }'') =
     ''@Serializable\<newline>enum class E {\<newline>    @SerialName('' @ [dquote] @ ''account-does-not-exist'' @ [dquote] @ '')\<newline>    ACCOUNT_DOES_NOT_EXIST\<newline>}''"
    by code_simp
  show "rewrite_file (''enum class Kind(val v: String) {OLD_ONE('' @ [dquote] @ ''x'' @ [dquote] @ '')}'') =
     ''@Serializable\<newline>enum class Kind {\<newline>    @SerialName('' @ [dquote] @ ''old-one('' @ [dquote] @ ''x'' @ [dquote] @ '')'' @ [dquote] @ '')\<newline>    OLD_ONE('' @ [dquote] @ ''x'' @ [dquote] @ '')\<newline>}''"
    by code_simp
qed

end
